theory Spec2Isabelle
  imports Complex_Main "HOL-Library.Log_Nat" "HOL-Library.List_Lexorder"
begin

section \<open>JavaScript strings\<close>

text \<open>
  A JavaScript string is a sequence of UTF-16 code units. A code unit is modelled by its
  number; \<open>js\<close> reads an ASCII literal as a string of code units.
\<close>

type_synonym jschar = nat
type_synonym jsstring = "jschar list"

definition js :: "string \<Rightarrow> jsstring" where
  "js s = map of_char s"

text \<open>
  WhiteSpace and LineTerminator of ECMAScript: the characters removed by
  \<^verbatim>\<open>String.prototype.trim\<close>, skipped by \<^verbatim>\<open>parseInt\<close>, \<^verbatim>\<open>parseFloat\<close> and
  \<^verbatim>\<open>Number\<close>, and matched by \<^verbatim>\<open>\s\<close> in a regular expression.
\<close>

definition isLineTerminator :: "jschar \<Rightarrow> bool" where
  "isLineTerminator c \<longleftrightarrow> c = 0x0A \<or> c = 0x0D \<or> c = 0x2028 \<or> c = 0x2029"

definition isWhiteSpace :: "jschar \<Rightarrow> bool" where
  "isWhiteSpace c \<longleftrightarrow>
     c = 0x09 \<or> c = 0x0B \<or> c = 0x0C \<or> c = 0x20 \<or> c = 0xA0 \<or> c = 0x1680 \<or>
     (0x2000 \<le> c \<and> c \<le> 0x200A) \<or> c = 0x202F \<or> c = 0x205F \<or> c = 0x3000 \<or>
     c = 0xFEFF \<or> isLineTerminator c"

definition trimStart :: "jsstring \<Rightarrow> jsstring" where
  "trimStart s = dropWhile isWhiteSpace s"

definition trimEnd :: "jsstring \<Rightarrow> jsstring" where
  "trimEnd s = rev (dropWhile isWhiteSpace (rev s))"

definition trim :: "jsstring \<Rightarrow> jsstring" where
  "trim s = trimEnd (trimStart s)"

text \<open>
  \<^verbatim>\<open>s.split(sep)\<close> for a separator of one code unit: the pieces between the separators,
  always at least one piece.
\<close>

fun split_str :: "jschar \<Rightarrow> jsstring \<Rightarrow> jsstring list" where
  "split_str sep [] = [[]]"
| "split_str sep (c # cs) =
     (if c = sep then [] # split_str sep cs
      else (case split_str sep cs of
              [] \<Rightarrow> [[c]]
            | w # ws \<Rightarrow> (c # w) # ws))"

text \<open>\<^verbatim>\<open>s.replace(/c/g, '')\<close> for one code unit \<open>c\<close>: every occurrence is removed.\<close>

definition removeAll_char :: "jschar \<Rightarrow> jsstring \<Rightarrow> jsstring" where
  "removeAll_char c s = filter (\<lambda>d. d \<noteq> c) s"

text \<open>
  \<^verbatim>\<open>s.replace(/"/g, '').replace(/,/g, '')\<close>, applied to the value and the index tokens.
\<close>

definition stripNumber :: "jsstring \<Rightarrow> jsstring" where
  "stripNumber s = removeAll_char 0x2C (removeAll_char 0x22 s)"

text \<open>
  \<^verbatim>\<open>s.padStart(n, f)\<close> for a fill string of one code unit (the only use in the program).
\<close>

definition padStart :: "jsstring \<Rightarrow> nat \<Rightarrow> jschar \<Rightarrow> jsstring" where
  "padStart s n f = (if n \<le> length s then s else replicate (n - length s) f @ s)"

text \<open>An array read \<^verbatim>\<open>xs[i]\<close>: \<open>None\<close> is \<^verbatim>\<open>undefined\<close>.\<close>

definition elem_at :: "'a list \<Rightarrow> nat \<Rightarrow> 'a option" where
  "elem_at xs i = (if i < length xs then Some (xs ! i) else None)"

section \<open>JavaScript numbers\<close>

text \<open>
  A Number is an IEEE 754 double: NaN, an infinity, or a finite value, kept as the
  rational it denotes. The two zeros are one value \<open>Fin 0\<close>: the program's only
  division is guarded by \<^verbatim>\<open>!== 0\<close>, which both zeros fail, and it never prints the sign
  of a zero. \<open>fl\<close> rounds a rational to the nearest double, ties to even, with gradual
  underflow and overflow to infinity.
\<close>

datatype jsnum = NaN | PInf | NInf | Fin rat

definition round_half_even :: "rat \<Rightarrow> int" where
  "round_half_even q =
     (let f = \<lfloor>q\<rfloor>; r = q - of_int f in
      if r < 1 / 2 then f else if 1 / 2 < r then f + 1 else if even f then f else f + 1)"

text \<open>\<open>ilog2 x\<close> is the integer \<open>k\<close> with \<open>2^k \<le> x < 2^(k+1)\<close>, for \<open>0 < x\<close>.\<close>

definition ilog2 :: "rat \<Rightarrow> int" where
  "ilog2 x =
     (let (p, q) = quotient_of x; d = bitlen p - bitlen q
      in if x < 2 powi d then d - 1 else d)"

definition fl :: "rat \<Rightarrow> jsnum" where
  "fl x =
     (if x = 0 then Fin 0
      else
        let a = \<bar>x\<bar>;
            e = max (ilog2 a - 52) (- 1074);
            m = round_half_even (a / 2 powi e);
            r = of_int m * 2 powi e
        in if 2 ^ 1024 \<le> r then (if x < 0 then NInf else PInf)
           else Fin (if x < 0 then - r else r))"

definition num_neg :: "jsnum \<Rightarrow> jsnum" where
  "num_neg x = (case x of NaN \<Rightarrow> NaN | PInf \<Rightarrow> NInf | NInf \<Rightarrow> PInf | Fin a \<Rightarrow> Fin (- a))"

fun num_add :: "jsnum \<Rightarrow> jsnum \<Rightarrow> jsnum" where
  "num_add NaN y = NaN"
| "num_add x NaN = NaN"
| "num_add PInf NInf = NaN"
| "num_add NInf PInf = NaN"
| "num_add PInf y = PInf"
| "num_add NInf y = NInf"
| "num_add x PInf = PInf"
| "num_add x NInf = NInf"
| "num_add (Fin a) (Fin b) = fl (a + b)"

definition num_sub :: "jsnum \<Rightarrow> jsnum \<Rightarrow> jsnum" where
  "num_sub x y = num_add x (num_neg y)"

text \<open>The sign of a Number: \<open>1\<close>, \<open>-1\<close>, or \<open>0\<close> for a zero and for NaN.\<close>

definition num_sgn :: "jsnum \<Rightarrow> int" where
  "num_sgn x = (case x of NaN \<Rightarrow> 0 | PInf \<Rightarrow> 1 | NInf \<Rightarrow> - 1
                | Fin a \<Rightarrow> if 0 < a then 1 else if a < 0 then - 1 else 0)"

definition signed_inf :: "int \<Rightarrow> jsnum" where
  "signed_inf s = (if s < 0 then NInf else PInf)"

fun num_mul :: "jsnum \<Rightarrow> jsnum \<Rightarrow> jsnum" where
  "num_mul NaN y = NaN"
| "num_mul x NaN = NaN"
| "num_mul (Fin a) (Fin b) = fl (a * b)"
| "num_mul x y = (if num_sgn x * num_sgn y = 0 then NaN else signed_inf (num_sgn x * num_sgn y))"

text \<open>
  Division. A zero divisor is taken as \<open>+0\<close>; the program never divides by a zero.
\<close>

fun num_div :: "jsnum \<Rightarrow> jsnum \<Rightarrow> jsnum" where
  "num_div NaN y = NaN"
| "num_div x NaN = NaN"
| "num_div (Fin a) (Fin b) =
     (if b = 0 then (if a = 0 then NaN else signed_inf (num_sgn (Fin a))) else fl (a / b))"
| "num_div (Fin a) y = Fin 0"
| "num_div x (Fin b) = signed_inf (num_sgn x * (if b < 0 then - 1 else 1))"
| "num_div x y = NaN"

definition isNaN :: "jsnum \<Rightarrow> bool" where
  "isNaN x \<longleftrightarrow> x = NaN"

definition isFinite :: "jsnum \<Rightarrow> bool" where
  "isFinite x = (case x of Fin a \<Rightarrow> True | _ \<Rightarrow> False)"

text \<open>Truncation toward zero (ToIntegerOrInfinity on a finite value).\<close>

definition trunc :: "rat \<Rightarrow> int" where
  "trunc q = (if q < 0 then - \<lfloor>- q\<rfloor> else \<lfloor>q\<rfloor>)"

section \<open>Reading numbers from strings\<close>

definition isDigit :: "jschar \<Rightarrow> bool" where
  "isDigit c \<longleftrightarrow> 0x30 \<le> c \<and> c \<le> 0x39"

definition digitsValue :: "jsstring \<Rightarrow> nat" where
  "digitsValue ds = foldl (\<lambda>a c. 10 * a + (c - 0x30)) 0 ds"

text \<open>An optional sign: whether it is \<^verbatim>\<open>-\<close>, and the rest.\<close>

definition stripSign :: "jsstring \<Rightarrow> bool \<times> jsstring" where
  "stripSign s =
     (case s of
        [] \<Rightarrow> (False, [])
      | c # cs \<Rightarrow> if c = 0x2D then (True, cs) else if c = 0x2B then (False, cs) else (False, s))"

text \<open>
  \<^verbatim>\<open>parseInt(s, 10)\<close>: leading white space is skipped, then an optional sign, then the
  longest run of decimal digits; no digit gives NaN. The integer is rounded to a double
  (for more than 20 significant digits ECMAScript lets an implementation approximate;
  the model rounds the exact integer).
\<close>

definition parseInt :: "jsstring \<Rightarrow> jsnum" where
  "parseInt s =
     (let (neg, r) = stripSign (trimStart s);
          z = takeWhile isDigit r
      in if z = [] then NaN
         else fl (if neg then - of_nat (digitsValue z) else of_nat (digitsValue z)))"

text \<open>
  The exponent part of a decimal literal at the head of a string:
  \<^verbatim>\<open>e\<close> or \<^verbatim>\<open>E\<close>, an optional sign, at least one digit.
\<close>

definition exponentPart :: "jsstring \<Rightarrow> (int \<times> jsstring) option" where
  "exponentPart s =
     (case s of
        [] \<Rightarrow> None
      | c # cs \<Rightarrow>
          if c = 0x65 \<or> c = 0x45 then
            (let (neg, r) = stripSign cs; ds = takeWhile isDigit r
             in if ds = [] then None
                else Some (if neg then - int (digitsValue ds) else int (digitsValue ds),
                           dropWhile isDigit r))
          else None)"

text \<open>
  The longest prefix of a string that is a StrUnsignedDecimalLiteral
  (\<^verbatim>\<open>Infinity\<close>, \<^verbatim>\<open>digits\<close>, \<^verbatim>\<open>digits.\<close>, \<^verbatim>\<open>digits.digits\<close>, \<^verbatim>\<open>.digits\<close>, each of the last
  four with an optional exponent part): its value and the rest of the string.
\<close>

definition strUnsignedDecimalLiteral :: "jsstring \<Rightarrow> (jsnum \<times> jsstring) option" where
  "strUnsignedDecimalLiteral s =
     (if take 8 s = js ''Infinity'' then Some (PInf, drop 8 s)
      else
        let ip = takeWhile isDigit s;
            r1 = dropWhile isDigit s;
            (fp, r2) = (case r1 of
                          [] \<Rightarrow> ([], r1)
                        | c # cs \<Rightarrow> if c = 0x2E then (takeWhile isDigit cs, dropWhile isDigit cs)
                                    else ([], r1))
        in if ip = [] \<and> fp = [] then None
           else
             let (ex, r3) = (case exponentPart r2 of None \<Rightarrow> (0, r2) | Some (k, r) \<Rightarrow> (k, r));
                 mv = (of_nat (digitsValue ip) + of_nat (digitsValue fp) / 10 ^ length fp)
                        * 10 powi ex
             in Some (fl mv, r3))"

text \<open>\<^verbatim>\<open>parseFloat(s)\<close>: the longest prefix of the left-trimmed string that is a
  StrDecimalLiteral; NaN when there is none.\<close>

definition parseFloat :: "jsstring \<Rightarrow> jsnum" where
  "parseFloat s =
     (let (neg, u) = stripSign (trimStart s)
      in case strUnsignedDecimalLiteral u of
           None \<Rightarrow> NaN
         | Some (v, r) \<Rightarrow> if neg then num_neg v else v)"

text \<open>
  NonDecimalIntegerLiteral: \<^verbatim>\<open>0x\<close>, \<^verbatim>\<open>0o\<close> or \<^verbatim>\<open>0b\<close> (either case) followed by at
  least one digit of the radix, and nothing else.
\<close>

definition radixDigit :: "nat \<Rightarrow> jschar \<Rightarrow> nat option" where
  "radixDigit radix c =
     (let v = (if 0x30 \<le> c \<and> c \<le> 0x39 then Some (c - 0x30)
               else if 0x61 \<le> c \<and> c \<le> 0x66 then Some (c - 0x61 + 10)
               else if 0x41 \<le> c \<and> c \<le> 0x46 then Some (c - 0x41 + 10)
               else None)
      in case v of None \<Rightarrow> None | Some d \<Rightarrow> if d < radix then Some d else None)"

definition radixValue :: "nat \<Rightarrow> jsstring \<Rightarrow> nat" where
  "radixValue radix ds =
     foldl (\<lambda>a c. radix * a + (case radixDigit radix c of None \<Rightarrow> 0 | Some d \<Rightarrow> d)) 0 ds"

definition nonDecimalIntegerLiteral :: "jsstring \<Rightarrow> nat option" where
  "nonDecimalIntegerLiteral s =
     (case s of
        z # x # d # ds \<Rightarrow>
          (let radix = (if x = 0x78 \<or> x = 0x58 then 16
                        else if x = 0x6F \<or> x = 0x4F then 8
                        else if x = 0x62 \<or> x = 0x42 then 2 else (0::nat))
           in if z = 0x30 \<and> radix \<noteq> 0 \<and> list_all (\<lambda>c. radixDigit radix c \<noteq> None) (d # ds)
              then Some (radixValue radix (d # ds)) else None)
      | _ \<Rightarrow> None)"

text \<open>
  \<^verbatim>\<open>Number(s)\<close> on a string (StringToNumber): white space is trimmed at both ends, the
  empty string is \<open>0\<close>, and the whole of what is left must be a numeric literal.
\<close>

definition Number :: "jsstring \<Rightarrow> jsnum" where
  "Number s =
     (let t = trim s
      in if t = [] then Fin 0
         else case nonDecimalIntegerLiteral t of
                Some n \<Rightarrow> fl (of_nat n)
              | None \<Rightarrow>
                  (let (neg, u) = stripSign t
                   in case strUnsignedDecimalLiteral u of
                        Some (v, []) \<Rightarrow> if neg then num_neg v else v
                      | _ \<Rightarrow> NaN))"

section \<open>Dates\<close>

text \<open>
  A Date object is its time value: milliseconds since the epoch, or \<open>None\<close> for NaN
  (an invalid date). The program reads and builds dates in local time; the local time
  zone is taken to be UTC. Day numbers and years follow the definitions of ECMAScript
  (Day, DayFromYear, DaysInYear, YearFromTime, MonthFromTime, MakeDay, MakeDate,
  TimeClip), on mathematical integers.
\<close>

type_synonym jsdate = "int option"

definition msPerDay :: int where
  "msPerDay = 86400000"

definition Day :: "int \<Rightarrow> int" where
  "Day t = t div msPerDay"

definition DaysInYear :: "int \<Rightarrow> int" where
  "DaysInYear y =
     (if y mod 4 \<noteq> 0 then 365 else if y mod 100 \<noteq> 0 then 366
      else if y mod 400 \<noteq> 0 then 365 else 366)"

definition DayFromYear :: "int \<Rightarrow> int" where
  "DayFromYear y =
     365 * (y - 1970) + (y - 1969) div 4 - (y - 1901) div 100 + (y - 1601) div 400"

text \<open>
  YearFromTime: the largest year \<open>y\<close> whose first day is not after the day of \<open>t\<close>.
  A year has 365 or 366 days, so \<open>y - 1970\<close> lies between the quotients of the day
  number by 366 and by 365; the search runs over that window, one year wider on each side.
\<close>

definition YearFromDay :: "int \<Rightarrow> int" where
  "YearFromDay d =
     (let lo = 1970 + min (d div 365) (d div 366) - 1;
          hi = 1970 + max (d div 365) (d div 366) + 1
      in fold (\<lambda>y best. if DayFromYear y \<le> d then y else best) [lo..hi] lo)"

definition YearFromTime :: "int \<Rightarrow> int" where
  "YearFromTime t = YearFromDay (Day t)"

definition InLeapYear :: "int \<Rightarrow> int" where
  "InLeapYear t = (if DaysInYear (YearFromTime t) = 366 then 1 else 0)"

definition DayWithinYear :: "int \<Rightarrow> int" where
  "DayWithinYear t = Day t - DayFromYear (YearFromTime t)"

definition MonthFromTime :: "int \<Rightarrow> int" where
  "MonthFromTime t =
     (let d = DayWithinYear t; l = InLeapYear t
      in if d < 31 then 0
         else if d < 59 + l then 1
         else if d < 90 + l then 2
         else if d < 120 + l then 3
         else if d < 151 + l then 4
         else if d < 181 + l then 5
         else if d < 212 + l then 6
         else if d < 243 + l then 7
         else if d < 273 + l then 8
         else if d < 304 + l then 9
         else if d < 334 + l then 10
         else 11)"

text \<open>The number of days of a year that precede its month \<open>mn\<close> (from 0 to 11).\<close>

definition daysBeforeMonth :: "int \<Rightarrow> int \<Rightarrow> int" where
  "daysBeforeMonth y mn =
     (let l = (if DaysInYear y = 366 then 1 else 0)
      in if mn = 0 then 0
         else if mn = 1 then 31
         else if mn = 2 then 59 + l
         else if mn = 3 then 90 + l
         else if mn = 4 then 120 + l
         else if mn = 5 then 151 + l
         else if mn = 6 then 181 + l
         else if mn = 7 then 212 + l
         else if mn = 8 then 243 + l
         else if mn = 9 then 273 + l
         else if mn = 10 then 304 + l
         else 334 + l)"

text \<open>
  MakeDay: NaN unless the three arguments are finite; they are truncated, the month is
  carried into the year, and the result is the day number of the first day of that month
  plus \<open>dt - 1\<close>.
\<close>

definition MakeDay :: "jsnum \<Rightarrow> jsnum \<Rightarrow> jsnum \<Rightarrow> int option" where
  "MakeDay year month date =
     (case (year, month, date) of
        (Fin y0, Fin m0, Fin d0) \<Rightarrow>
          (let y = trunc y0; m = trunc m0; dt = trunc d0;
               ym = y + m div 12;
               mn = m mod 12
           in Some (DayFromYear ym + daysBeforeMonth ym mn + dt - 1))
      | _ \<Rightarrow> None)"

definition MakeFullYear :: "jsnum \<Rightarrow> jsnum" where
  "MakeFullYear year =
     (case year of
        Fin y \<Rightarrow> (let truncated = trunc y
                  in if 0 \<le> truncated \<and> truncated \<le> 99 then Fin (of_int (1900 + truncated))
                     else Fin (of_int truncated))
      | _ \<Rightarrow> year)"

definition MakeDate :: "int \<Rightarrow> int \<Rightarrow> int" where
  "MakeDate day time = day * msPerDay + time"

definition TimeClip :: "int \<Rightarrow> jsdate" where
  "TimeClip t = (if 8640000000000000 < \<bar>t\<bar> then None else Some t)"

text \<open>\<^verbatim>\<open>new Date(year, month, day)\<close>: the hours, minutes, seconds and milliseconds are 0.\<close>

definition newDate :: "jsnum \<Rightarrow> jsnum \<Rightarrow> jsnum \<Rightarrow> jsdate" where
  "newDate year month day =
     (case MakeDay (MakeFullYear year) month day of
        None \<Rightarrow> None
      | Some d \<Rightarrow> TimeClip (MakeDate d 0))"

definition getTime :: "jsdate \<Rightarrow> jsnum" where
  "getTime d = (case d of None \<Rightarrow> NaN | Some t \<Rightarrow> Fin (of_int t))"

text \<open>
  \<^verbatim>\<open>getFullYear()\<close> and \<^verbatim>\<open>getMonth()\<close> return NaN (\<open>None\<close>) on an invalid date and
  an integer otherwise.
\<close>

definition getFullYear :: "jsdate \<Rightarrow> int option" where
  "getFullYear d = map_option YearFromTime d"

definition getMonth :: "jsdate \<Rightarrow> int option" where
  "getMonth d = map_option MonthFromTime d"

text \<open>
  ToString on such a Number: \<^verbatim>\<open>NaN\<close>, or the decimal numeral of the integer (the
  integers met here are far below \<open>10^21\<close>, where the decimal numeral is exact).
\<close>

fun natDigits :: "nat \<Rightarrow> jsstring" where
  "natDigits n = (if n < 10 then [0x30 + n] else natDigits (n div 10) @ [0x30 + n mod 10])"

declare natDigits.simps [simp del]

definition ToString :: "int option \<Rightarrow> jsstring" where
  "ToString x =
     (case x of
        None \<Rightarrow> js ''NaN''
      | Some i \<Rightarrow> if i < 0 then 0x2D # natDigits (nat (- i)) else natDigits (nat i))"

section \<open>The tokenizer of parseCSV\<close>

text \<open>
  The regular expression \<^verbatim>\<open>/(".*?"|[^",\s]+)(?=\s*,|\s*$)/g\<close>, matched the way a
  backtracking matcher does.

  The lookahead \<^verbatim>\<open>(?=\s*,|\s*$)\<close> holds at a position when, after the white space
  there, a comma or the end of the string follows (a shorter run of white space cannot
  help: the next character would be white space, neither a comma nor the end).
\<close>

definition lookahead :: "jsstring \<Rightarrow> bool" where
  "lookahead s = (case dropWhile isWhiteSpace s of [] \<Rightarrow> True | c # cs \<Rightarrow> c = 0x2C)"

text \<open>
  \<^verbatim>\<open>".*?"\<close> after its opening quote: the lazy \<^verbatim>\<open>.*?\<close> first tries to stop at once,
  which needs a closing quote with the lookahead after it; otherwise it takes one more
  character, which must not be a line terminator. The result is the number of
  characters taken after the opening quote, the closing quote included.
\<close>

fun quotedRest :: "jsstring \<Rightarrow> nat option" where
  "quotedRest [] = None"
| "quotedRest (c # cs) =
     (if c = 0x22 \<and> lookahead cs then Some 1
      else if isLineTerminator c then None
      else map_option Suc (quotedRest cs))"

definition bareChar :: "jschar \<Rightarrow> bool" where
  "bareChar c \<longleftrightarrow> c \<noteq> 0x22 \<and> c \<noteq> 0x2C \<and> \<not> isWhiteSpace c"

text \<open>
  \<^verbatim>\<open>[^",\s]+\<close> is greedy: it takes the whole run first and gives characters back one at
  a time, down to one character, until the lookahead holds.
\<close>

fun bareRun :: "nat \<Rightarrow> jsstring \<Rightarrow> nat option" where
  "bareRun 0 s = None"
| "bareRun (Suc k) s = (if lookahead (drop (Suc k) s) then Some (Suc k) else bareRun k s)"

text \<open>A match at the head of \<open>s\<close>: its length. The quoted alternative is tried first.\<close>

definition matchAt :: "jsstring \<Rightarrow> nat option" where
  "matchAt s =
     (case (case s of
              [] \<Rightarrow> None
            | c # cs \<Rightarrow> if c = 0x22 then map_option Suc (quotedRest cs) else None) of
        Some n \<Rightarrow> Some n
      | None \<Rightarrow> bareRun (length (takeWhile bareChar s)) s)"

text \<open>
  The global search: a failed position moves on by one character, a match resumes at its
  end (one character further for an empty match).
\<close>

fun matchAll :: "jsstring \<Rightarrow> jsstring list" where
  "matchAll [] = []"
| "matchAll (c # cs) =
     (case matchAt (c # cs) of
        None \<Rightarrow> matchAll cs
      | Some n \<Rightarrow> take n (c # cs) # matchAll (drop (n - 1) cs))"

text \<open>\<^verbatim>\<open>line.match(re)\<close>: \<^verbatim>\<open>null\<close> (\<open>None\<close>) when nothing matches.\<close>

definition String_match :: "jsstring \<Rightarrow> jsstring list option" where
  "String_match line = (case matchAll line of [] \<Rightarrow> None | m # ms \<Rightarrow> Some (m # ms))"

section \<open>Sorting with a comparison function\<close>

text \<open>
  \<^verbatim>\<open>Array.prototype.sort(comparefn)\<close> is a stable sort; a NaN returned by the comparison
  function counts as 0. The model is the stable insertion sort. When the comparison
  function is a consistent one, every stable sort gives this result; otherwise ECMAScript
  leaves the order to the implementation.
\<close>

definition SortCompare :: "('a \<Rightarrow> 'a \<Rightarrow> jsnum) \<Rightarrow> 'a \<Rightarrow> 'a \<Rightarrow> jsnum" where
  "SortCompare comparefn x y = (let v = comparefn x y in if isNaN v then Fin 0 else v)"

fun insertSorted :: "('a \<Rightarrow> 'a \<Rightarrow> jsnum) \<Rightarrow> 'a \<Rightarrow> 'a list \<Rightarrow> 'a list" where
  "insertSorted comparefn x [] = [x]"
| "insertSorted comparefn x (y # ys) =
     (if 0 < num_sgn (SortCompare comparefn x y) then y # insertSorted comparefn x ys
      else x # y # ys)"

definition Array_sort :: "('a \<Rightarrow> 'a \<Rightarrow> jsnum) \<Rightarrow> 'a list \<Rightarrow> 'a list" where
  "Array_sort comparefn xs = foldr (insertSorted comparefn) xs []"

section \<open>The data model\<close>

text \<open>
  The field \<^verbatim>\<open>value\<close> of the source is \<open>val\<close> here; an absent \<^verbatim>\<open>index\<close> is \<open>None\<close>.
\<close>

record StockDataPoint =
  date :: jsstring
  dateObj :: jsdate
  val :: jsnum
  index :: "jsnum option"

record MonthlyGrowth =
  month :: jsstring
  startValue :: jsnum
  endValue :: jsnum
  growth :: jsnum
  growthPercent :: jsnum

text \<open>
  A raised exception. The program can only raise a TypeError, by reading a property of
  \<^verbatim>\<open>undefined\<close>.
\<close>

datatype error = TypeError

text \<open>ToNumber on what an array read gives: \<^verbatim>\<open>undefined\<close> is NaN.\<close>

definition ToNumber :: "jsnum option \<Rightarrow> jsnum" where
  "ToNumber u = (case u of None \<Rightarrow> NaN | Some x \<Rightarrow> x)"

text \<open>The comparison function of both sorts: \<^verbatim>\<open>a.dateObj.getTime() - b.dateObj.getTime()\<close>.\<close>

definition byTime :: "StockDataPoint \<Rightarrow> StockDataPoint \<Rightarrow> jsnum" where
  "byTime a b = num_sub (getTime (dateObj a)) (getTime (dateObj b))"

section \<open>parseCSV\<close>

text \<open>
  The date of a row: \<^verbatim>\<open>const [year, month, day] = dateStr.split('/').map(Number)\<close>
  and \<^verbatim>\<open>new Date(year, month - 1, day)\<close>. A part the token does not have is
  \<^verbatim>\<open>undefined\<close>.
\<close>

definition parseDate :: "jsstring \<Rightarrow> jsdate" where
  "parseDate dateStr =
     (let parts = map Number (split_str 0x2F dateStr);
          year = ToNumber (elem_at parts 0);
          month = ToNumber (elem_at parts 1);
          day = ToNumber (elem_at parts 2)
      in newDate year (num_sub month (Fin 1)) day)"

text \<open>The callback of \<^verbatim>\<open>dataLines.map\<close>: \<open>Inr None\<close> is the \<^verbatim>\<open>null\<close> of a dropped line.\<close>

definition parseLine :: "jsstring \<Rightarrow> error + StockDataPoint option" where
  "parseLine line =
     (case String_match line of
        None \<Rightarrow> Inr None
      | Some matches \<Rightarrow>
          if length matches < 2 then Inr None
          else
            (case elem_at matches 0 of
               None \<Rightarrow> Inl TypeError
             | Some dateStr \<Rightarrow>
                 (case elem_at matches 1 of
                    None \<Rightarrow> Inl TypeError
                  | Some m1 \<Rightarrow>
                      (let valueStr = stripNumber m1;
                           dateObj = parseDate dateStr;
                           indexVal =
                             (if 3 \<le> length matches then
                                (case elem_at matches 2 of
                                   None \<Rightarrow> Inl TypeError
                                 | Some m2 \<Rightarrow>
                                     (let indexStr = stripNumber m2;
                                          parsed = parseFloat indexStr
                                      in Inr (if \<not> isNaN parsed then Some parsed else None)))
                              else Inr None)
                       in case indexVal of
                            Inl e \<Rightarrow> Inl e
                          | Inr i \<Rightarrow>
                              Inr (Some \<lparr>date = dateStr, dateObj = dateObj,
                                         val = parseInt valueStr, index = i\<rparr>)))))"

text \<open>\<^verbatim>\<open>xs.map(f)\<close> for a callback that may raise: the first exception ends the call.\<close>

fun mapE :: "('a \<Rightarrow> error + 'b) \<Rightarrow> 'a list \<Rightarrow> error + 'b list" where
  "mapE f [] = Inr []"
| "mapE f (x # xs) =
     (case f x of
        Inl e \<Rightarrow> Inl e
      | Inr y \<Rightarrow> (case mapE f xs of Inl e \<Rightarrow> Inl e | Inr ys \<Rightarrow> Inr (y # ys)))"

text \<open>\<^verbatim>\<open>.filter(item => item !== null)\<close>\<close>

fun notNull :: "'a option list \<Rightarrow> 'a list" where
  "notNull [] = []"
| "notNull (None # xs) = notNull xs"
| "notNull (Some x # xs) = x # notNull xs"

definition dataLines :: "jsstring \<Rightarrow> jsstring list" where
  "dataLines csvContent = drop 1 (split_str 0x0A (trim csvContent))"

definition parseCSV :: "jsstring \<Rightarrow> error + StockDataPoint list" where
  "parseCSV csvContent =
     (case mapE parseLine (dataLines csvContent) of
        Inl e \<Rightarrow> Inl e
      | Inr parsed \<Rightarrow> Inr (Array_sort byTime (notNull parsed)))"

section \<open>calculateMonthlyGrowth\<close>

text \<open>
  The object \<^verbatim>\<open>grouped\<close>: its own properties in insertion order, each holding an array of
  points. Every key has the form \<^verbatim>\<open>year-month\<close>, so no key is an array index (which
  would be listed first by \<^verbatim>\<open>Object.keys\<close>) or a property of \<^verbatim>\<open>Object.prototype\<close>.
\<close>

type_synonym grouped = "(jsstring \<times> StockDataPoint list) list"

definition obj_get :: "(jsstring \<times> 'v) list \<Rightarrow> jsstring \<Rightarrow> 'v option" where
  "obj_get obj k = map_of obj k"

fun obj_set :: "(jsstring \<times> 'v) list \<Rightarrow> jsstring \<Rightarrow> 'v \<Rightarrow> (jsstring \<times> 'v) list" where
  "obj_set [] k v = [(k, v)]"
| "obj_set ((k', v') # ps) k v = (if k' = k then (k, v) # ps else (k', v') # obj_set ps k v)"

definition Object_keys :: "(jsstring \<times> 'v) list \<Rightarrow> jsstring list" where
  "Object_keys obj = map fst obj"

definition monthKey :: "jsdate \<Rightarrow> jsstring" where
  "monthKey d =
     ToString (getFullYear d) @ js ''-'' @
     padStart (ToString (map_option (\<lambda>m. m + 1) (getMonth d))) 2 0x30"

text \<open>The callback of \<^verbatim>\<open>data.forEach\<close>.\<close>

definition groupPoint :: "grouped \<Rightarrow> StockDataPoint \<Rightarrow> error + grouped" where
  "groupPoint g point =
     (let key = monthKey (dateObj point);
          g1 = (if obj_get g key = None then obj_set g key [] else g)
      in case obj_get g1 key of
           None \<Rightarrow> Inl TypeError
         | Some arr \<Rightarrow> Inr (obj_set g1 key (arr @ [point])))"

fun forEach_group :: "grouped \<Rightarrow> StockDataPoint list \<Rightarrow> error + grouped" where
  "forEach_group g [] = Inr g"
| "forEach_group g (point # rest) =
     (case groupPoint g point of Inl e \<Rightarrow> Inl e | Inr g' \<Rightarrow> forEach_group g' rest)"

text \<open>
  \<^verbatim>\<open>arr[arr.length - 1].value\<close> and \<^verbatim>\<open>arr[0].value\<close>: reading \<^verbatim>\<open>value\<close> of
  \<^verbatim>\<open>undefined\<close> raises.
\<close>

definition lastValue :: "StockDataPoint list \<Rightarrow> error + jsnum" where
  "lastValue arr =
     (case (if length arr = 0 then None else elem_at arr (length arr - 1)) of
        None \<Rightarrow> Inl TypeError
      | Some p \<Rightarrow> Inr (val p))"

definition firstValue :: "StockDataPoint list \<Rightarrow> error + jsnum" where
  "firstValue arr = (case elem_at arr 0 of None \<Rightarrow> Inl TypeError | Some p \<Rightarrow> Inr (val p))"

text \<open>
  \<^verbatim>\<open>grouped[k].sort(...)\<close>: the array held under \<open>k\<close> is sorted in place; the result is
  the changed object and the sorted array. The key \<open>None\<close> is \<^verbatim>\<open>undefined\<close>, which no
  property is held under.
\<close>

definition sortGroup :: "grouped \<Rightarrow> jsstring option \<Rightarrow> error + (grouped \<times> StockDataPoint list)" where
  "sortGroup g k =
     (case (case k of None \<Rightarrow> None | Some key \<Rightarrow> map_option (Pair key) (obj_get g key)) of
        None \<Rightarrow> Inl TypeError
      | Some (key, arr) \<Rightarrow>
          (let sorted = Array_sort byTime arr in Inr (obj_set g key sorted, sorted)))"

text \<open>
  The end of the callback of \<^verbatim>\<open>monthKeys.map\<close>: the growth, the percentage with its
  guard against a zero start value, and the record.
\<close>

definition growthRecord :: "jsstring \<Rightarrow> jsnum \<Rightarrow> jsnum \<Rightarrow> MonthlyGrowth" where
  "growthRecord mKey previousEndValue currentEndValue =
     (let growth = num_sub currentEndValue previousEndValue;
          growthPercent =
            (if previousEndValue \<noteq> Fin 0
             then num_mul (num_div growth previousEndValue) (Fin 100)
             else Fin 0)
      in \<lparr>month = mKey, startValue = previousEndValue, endValue = currentEndValue,
          growth = growth, growthPercent = growthPercent\<rparr>)"

text \<open>The callback of \<^verbatim>\<open>monthKeys.map\<close>, with the object it has changed.\<close>

definition monthRecord ::
  "jsstring list \<Rightarrow> grouped \<Rightarrow> jsstring \<Rightarrow> nat \<Rightarrow> error + (MonthlyGrowth \<times> grouped)" where
  "monthRecord monthKeys g mKey i =
     (case sortGroup g (Some mKey) of
        Inl e \<Rightarrow> Inl e
      | Inr (g1, points) \<Rightarrow>
          (case lastValue points of
             Inl e \<Rightarrow> Inl e
           | Inr currentEndValue \<Rightarrow>
               (case (if i = 0 then
                        (case firstValue points of
                           Inl e \<Rightarrow> Inl e
                         | Inr v \<Rightarrow> Inr (v, g1))
                      else
                        (case sortGroup g1 (elem_at monthKeys (i - 1)) of
                           Inl e \<Rightarrow> Inl e
                         | Inr (g2, prevPoints) \<Rightarrow>
                             (case lastValue prevPoints of
                                Inl e \<Rightarrow> Inl e
                              | Inr v \<Rightarrow> Inr (v, g2)))) of
                  Inl e \<Rightarrow> Inl e
                | Inr (previousEndValue, g') \<Rightarrow>
                    Inr (growthRecord mKey previousEndValue currentEndValue, g'))))"

fun mapRecords ::
  "jsstring list \<Rightarrow> grouped \<Rightarrow> nat \<Rightarrow> jsstring list \<Rightarrow> error + MonthlyGrowth list" where
  "mapRecords monthKeys g i [] = Inr []"
| "mapRecords monthKeys g i (mKey # rest) =
     (case monthRecord monthKeys g mKey i of
        Inl e \<Rightarrow> Inl e
      | Inr (r, g') \<Rightarrow>
          (case mapRecords monthKeys g' (Suc i) rest of
             Inl e \<Rightarrow> Inl e
           | Inr rs \<Rightarrow> Inr (r # rs)))"

text \<open>
  \<^verbatim>\<open>Object.keys(grouped).sort()\<close>: without a comparison function the strings are sorted
  by their code units, a prefix before its extensions.
\<close>

definition calculateMonthlyGrowth :: "StockDataPoint list \<Rightarrow> error + MonthlyGrowth list" where
  "calculateMonthlyGrowth data =
     (case forEach_group [] data of
        Inl e \<Rightarrow> Inl e
      | Inr g \<Rightarrow> (let monthKeys = sort (Object_keys g) in mapRecords monthKeys g 0 monthKeys))"

section \<open>calculateMonthlyGrowth on a store of arrays\<close>

text \<open>
  An array is an object: a variable holds its address, and \<^verbatim>\<open>push\<close> and \<^verbatim>\<open>sort\<close>
  change the array at that address. Here the arrays live in a store, the argument
  \<^verbatim>\<open>data\<close> is an address, and \<^verbatim>\<open>grouped\<close> maps each key to the address of its array.
  The function never assigns to a field of a point, so the points are values.
\<close>

type_synonym addr = nat

record store =
  arrays :: "addr \<Rightarrow> StockDataPoint list option"
  fresh :: addr

type_synonym groupedRef = "(jsstring \<times> addr) list"

text \<open>The array literal \<^verbatim>\<open>[]\<close>: a new array at an unused address.\<close>

definition newArray :: "store \<Rightarrow> addr \<times> store" where
  "newArray s = (fresh s, s\<lparr>arrays := (arrays s)(fresh s \<mapsto> []), fresh := Suc (fresh s)\<rparr>)"

definition push :: "store \<Rightarrow> addr option \<Rightarrow> StockDataPoint \<Rightarrow> error + store" where
  "push s r p =
     (case (case r of None \<Rightarrow> None | Some a \<Rightarrow> map_option (Pair a) (arrays s a)) of
        None \<Rightarrow> Inl TypeError
      | Some (a, arr) \<Rightarrow> Inr (s\<lparr>arrays := (arrays s)(a \<mapsto> arr @ [p])\<rparr>))"

definition groupPoint_st ::
  "store \<Rightarrow> groupedRef \<Rightarrow> StockDataPoint \<Rightarrow> error + (groupedRef \<times> store)" where
  "groupPoint_st s g point =
     (let key = monthKey (dateObj point);
          (g1, s1) = (if obj_get g key = None
                      then (let (a, s') = newArray s in (obj_set g key a, s'))
                      else (g, s))
      in case push s1 (obj_get g1 key) point of
           Inl e \<Rightarrow> Inl e
         | Inr s2 \<Rightarrow> Inr (g1, s2))"

text \<open>
  \<^verbatim>\<open>data.forEach\<close>: the length is read once, each element is read from the array as
  it is when its turn comes, and an index the array no longer has is skipped.
\<close>

fun forEach_st ::
  "store \<Rightarrow> addr \<Rightarrow> nat \<Rightarrow> nat \<Rightarrow> groupedRef \<Rightarrow> error + (groupedRef \<times> store)" where
  "forEach_st s data k 0 g = Inr (g, s)"
| "forEach_st s data k (Suc n) g =
     (case arrays s data of
        None \<Rightarrow> Inl TypeError
      | Some xs \<Rightarrow>
          (case elem_at xs k of
             None \<Rightarrow> forEach_st s data (Suc k) n g
           | Some point \<Rightarrow>
               (case groupPoint_st s g point of
                  Inl e \<Rightarrow> Inl e
                | Inr (g', s') \<Rightarrow> forEach_st s' data (Suc k) n g')))"

definition sortGroup_st ::
  "store \<Rightarrow> groupedRef \<Rightarrow> jsstring option \<Rightarrow> error + (store \<times> StockDataPoint list)" where
  "sortGroup_st s g k =
     (case (case k of None \<Rightarrow> None | Some key \<Rightarrow> obj_get g key) of
        None \<Rightarrow> Inl TypeError
      | Some a \<Rightarrow>
          (case arrays s a of
             None \<Rightarrow> Inl TypeError
           | Some arr \<Rightarrow>
               (let sorted = Array_sort byTime arr
                in Inr (s\<lparr>arrays := (arrays s)(a \<mapsto> sorted)\<rparr>, sorted))))"

definition monthRecord_st ::
  "jsstring list \<Rightarrow> store \<Rightarrow> groupedRef \<Rightarrow> jsstring \<Rightarrow> nat \<Rightarrow> error + (MonthlyGrowth \<times> store)"
  where
  "monthRecord_st monthKeys s g mKey i =
     (case sortGroup_st s g (Some mKey) of
        Inl e \<Rightarrow> Inl e
      | Inr (s1, points) \<Rightarrow>
          (case lastValue points of
             Inl e \<Rightarrow> Inl e
           | Inr currentEndValue \<Rightarrow>
               (case (if i = 0 then
                        (case firstValue points of
                           Inl e \<Rightarrow> Inl e
                         | Inr v \<Rightarrow> Inr (v, s1))
                      else
                        (case sortGroup_st s1 g (elem_at monthKeys (i - 1)) of
                           Inl e \<Rightarrow> Inl e
                         | Inr (s2, prevPoints) \<Rightarrow>
                             (case lastValue prevPoints of
                                Inl e \<Rightarrow> Inl e
                              | Inr v \<Rightarrow> Inr (v, s2)))) of
                  Inl e \<Rightarrow> Inl e
                | Inr (previousEndValue, s') \<Rightarrow>
                    Inr (growthRecord mKey previousEndValue currentEndValue, s'))))"

fun mapRecords_st ::
  "jsstring list \<Rightarrow> store \<Rightarrow> groupedRef \<Rightarrow> nat \<Rightarrow> jsstring list
     \<Rightarrow> error + (MonthlyGrowth list \<times> store)" where
  "mapRecords_st monthKeys s g i [] = Inr ([], s)"
| "mapRecords_st monthKeys s g i (mKey # rest) =
     (case monthRecord_st monthKeys s g mKey i of
        Inl e \<Rightarrow> Inl e
      | Inr (r, s') \<Rightarrow>
          (case mapRecords_st monthKeys s' g (Suc i) rest of
             Inl e \<Rightarrow> Inl e
           | Inr (rs, s'') \<Rightarrow> Inr (r # rs, s'')))"

definition calculateMonthlyGrowth_st ::
  "store \<Rightarrow> addr \<Rightarrow> error + (MonthlyGrowth list \<times> store)" where
  "calculateMonthlyGrowth_st s data =
     (case arrays s data of
        None \<Rightarrow> Inl TypeError
      | Some xs \<Rightarrow>
          (case forEach_st s data 0 (length xs) [] of
             Inl e \<Rightarrow> Inl e
           | Inr (g, s') \<Rightarrow>
               (let monthKeys = sort (Object_keys g)
                in mapRecords_st monthKeys s' g 0 monthKeys)))"

text \<open>A store is well formed when every array in it lies below the next unused address.\<close>

definition store_ok :: "store \<Rightarrow> bool" where
  "store_ok s \<longleftrightarrow> (\<forall>a. arrays s a \<noteq> None \<longrightarrow> a < fresh s)"

section \<open>Notions used in the statements\<close>

text \<open>The order the comparison function of the sorts puts on two points.\<close>

definition later :: "StockDataPoint \<Rightarrow> StockDataPoint \<Rightarrow> bool" where
  "later a b \<longleftrightarrow> 0 < num_sgn (SortCompare byTime a b)"

text \<open>
  \<^verbatim>\<open>a.dateObj <= b.dateObj\<close>: both dates are converted to their time values, and a
  comparison with NaN is false.
\<close>

definition date_le :: "jsdate \<Rightarrow> jsdate \<Rightarrow> bool" where
  "date_le a b = (case (a, b) of (Some s, Some t) \<Rightarrow> s \<le> t | _ \<Rightarrow> False)"

text \<open>The year and month of a date, as \<^verbatim>\<open>getFullYear\<close> and \<^verbatim>\<open>getMonth\<close> give them.\<close>

definition yearMonth :: "StockDataPoint \<Rightarrow> int option \<times> int option" where
  "yearMonth p = (getFullYear (dateObj p), getMonth (dateObj p))"

text \<open>
  The invariant of \<^verbatim>\<open>grouped\<close>: no key twice, no empty array.
\<close>

definition groups_ok :: "grouped \<Rightarrow> bool" where
  "groups_ok g \<longleftrightarrow> distinct (Object_keys g) \<and> (\<forall>k arr. obj_get g k = Some arr \<longrightarrow> arr \<noteq> [])"

text \<open>
  The array held under a key once sorted, and the values of its first and last points.
\<close>

definition sortedGroup :: "grouped \<Rightarrow> jsstring \<Rightarrow> StockDataPoint list" where
  "sortedGroup g k = (case obj_get g k of None \<Rightarrow> [] | Some arr \<Rightarrow> Array_sort byTime arr)"

definition openOf :: "grouped \<Rightarrow> jsstring \<Rightarrow> jsnum" where
  "openOf g k = val (hd (sortedGroup g k))"

definition closeOf :: "grouped \<Rightarrow> jsstring \<Rightarrow> jsnum" where
  "closeOf g k = val (last (sortedGroup g k))"

text \<open>The record of the \<open>j\<close>-th key of a list of keys.\<close>

definition recordAt :: "grouped \<Rightarrow> jsstring list \<Rightarrow> nat \<Rightarrow> MonthlyGrowth" where
  "recordAt g ks j =
     growthRecord (ks ! j)
       (if j = 0 then openOf g (ks ! 0) else closeOf g (ks ! (j - 1)))
       (closeOf g (ks ! j))"

text \<open>The month part of a key of a valid date has two digits and determines the month.\<close>

definition monthPart :: "int \<Rightarrow> jsstring" where
  "monthPart m = padStart (ToString (Some (m + 1))) 2 0x30"

text \<open>
  \<^verbatim>\<open>Number.isSafeInteger\<close>: an integer of magnitude below \<open>2^53\<close>.
\<close>

definition isSafeInteger :: "jsnum \<Rightarrow> bool" where
  "isSafeInteger x =
     (case x of Fin a \<Rightarrow> a = of_int \<lfloor>a\<rfloor> \<and> \<bar>a\<bar> < 2 ^ 53 | _ \<Rightarrow> False)"

text \<open>What a line contributes to the result of parseCSV: a point, or nothing.\<close>

definition lineResult :: "jsstring \<Rightarrow> StockDataPoint option" where
  "lineResult line = (case parseLine line of Inl e \<Rightarrow> None | Inr r \<Rightarrow> r)"

text \<open>
  The object \<^verbatim>\<open>grouped\<close> that a store and a map from keys to addresses stand for.
\<close>

definition absG :: "store \<Rightarrow> groupedRef \<Rightarrow> grouped" where
  "absG s g = map (\<lambda>(k, a). (k, case arrays s a of None \<Rightarrow> [] | Some arr \<Rightarrow> arr)) g"

text \<open>
  The invariant of the store while calculateMonthlyGrowth runs from the store \<open>s0\<close>:
  the arrays that existed at the start are unchanged, and \<^verbatim>\<open>grouped\<close> holds distinct
  arrays made since.
\<close>

definition store_inv :: "store \<Rightarrow> store \<Rightarrow> groupedRef \<Rightarrow> bool" where
  "store_inv s0 s g \<longleftrightarrow>
     fresh s0 \<le> fresh s \<and>
     (\<forall>a. a < fresh s0 \<longrightarrow> arrays s a = arrays s0 a) \<and>
     (\<forall>(k, a)\<in>set g. fresh s0 \<le> a \<and> a < fresh s \<and> arrays s a \<noteq> None) \<and>
     distinct (map snd g)"

section \<open>Rounding to a double\<close>

lemma bitlen_powi:
  assumes "0 < p"
  shows "(2::rat) powi (bitlen p - 1) \<le> of_int p" "of_int p < (2::rat) powi (bitlen p)"
proof -
  have b: "1 \<le> bitlen p" using assms by (simp add: bitlen_alt_def)
  have "(2::int) ^ nat (bitlen p - 1) \<le> p" "p < 2 ^ nat (bitlen p)"
    using bitlen_bounds[OF assms] by auto
  then have "(of_int ((2::int) ^ nat (bitlen p - 1)) :: rat) \<le> of_int p"
    "(of_int p :: rat) < of_int (2 ^ nat (bitlen p))"
    by (simp_all only: of_int_le_iff of_int_less_iff)
  then show "(2::rat) powi (bitlen p - 1) \<le> of_int p" "of_int p < (2::rat) powi (bitlen p)"
    using b by (simp_all add: power_int_def)
qed

lemma ilog2_bounds:
  assumes "0 < x"
  shows "2 powi ilog2 x \<le> x" "x < 2 powi (ilog2 x + 1)"
proof -
  obtain p q where pq: "quotient_of x = (p, q)" by force
  have q: "0 < q" by (rule quotient_of_denom_pos[OF pq])
  have x: "x = of_int p / of_int q" by (rule quotient_of_div[OF pq])
  have p: "0 < p" using assms q x by (simp add: zero_less_divide_iff)
  define d where "d = bitlen p - bitlen q"
  have pos: "\<And>n. (0::rat) < 2 powi n" by (simp add: zero_less_power_int)
  have up: "x < 2 powi (d + 1)"
  proof -
    have "of_int p / of_int q < (2::rat) powi bitlen p / 2 powi (bitlen q - 1)"
      using bitlen_powi[OF p] bitlen_powi[OF q] p pos
      by (intro frac_less) auto
    also have "\<dots> = 2 powi (bitlen p - (bitlen q - 1))"
      by (simp add: power_int_diff)
    finally show ?thesis by (simp add: x d_def algebra_simps)
  qed
  have lo: "2 powi (d - 1) \<le> x"
  proof -
    have "(2::rat) powi (bitlen p - 1) / 2 powi bitlen q \<le> of_int p / of_int q"
      using bitlen_powi[OF p] bitlen_powi[OF q] p q pos
      by (intro frac_le) auto
    moreover have "(2::rat) powi (bitlen p - 1) / 2 powi bitlen q = 2 powi (bitlen p - 1 - bitlen q)"
      by (simp add: power_int_diff)
    ultimately show ?thesis by (simp add: x d_def algebra_simps)
  qed
  have il: "ilog2 x = (if x < 2 powi d then d - 1 else d)"
    by (simp add: ilog2_def pq d_def Let_def)
  show "2 powi ilog2 x \<le> x" using lo by (simp add: il)
  show "x < 2 powi (ilog2 x + 1)" using up by (simp add: il)
qed

lemma ilog2_unique:
  assumes "0 < x" "2 powi k \<le> x" "x < 2 powi (k + 1)"
  shows "ilog2 x = k"
proof -
  have a: "\<not> k + 1 \<le> ilog2 x"
  proof
    assume "k + 1 \<le> ilog2 x"
    then have "(2::rat) powi (k + 1) \<le> 2 powi ilog2 x" by (intro power_int_increasing) auto
    with ilog2_bounds(1)[OF assms(1)] assms(3) show False by simp
  qed
  have b: "\<not> ilog2 x + 1 \<le> k"
  proof
    assume "ilog2 x + 1 \<le> k"
    then have "(2::rat) powi (ilog2 x + 1) \<le> 2 powi k" by (intro power_int_increasing) auto
    with ilog2_bounds(2)[OF assms(1)] assms(2) show False by simp
  qed
  from a b show ?thesis by simp
qed

text \<open>The value of \<open>fl\<close> once the binade of its argument is known.\<close>

lemma fl_cases:
  assumes "2 powi k \<le> \<bar>x\<bar>" "\<bar>x\<bar> < 2 powi (k + 1)"
  shows "fl x =
     (let e = max (k - 52) (- 1074);
          r = of_int (round_half_even (\<bar>x\<bar> / 2 powi e)) * 2 powi e
      in if 2 ^ 1024 \<le> r then (if x < 0 then NInf else PInf)
         else Fin (if x < 0 then - r else r))"
proof -
  have "(0::rat) < 2 powi k" by (simp add: zero_less_power_int)
  with assms(1) have pos: "0 < \<bar>x\<bar>" by linarith
  then have "x \<noteq> 0" by simp
  moreover have "ilog2 \<bar>x\<bar> = k" by (rule ilog2_unique[OF pos assms])
  ultimately show ?thesis unfolding fl_def Let_def by (simp only: if_False)
qed

lemma round_half_even_of_int [simp]: "round_half_even (of_int z) = z"
  by (simp add: round_half_even_def)

lemma round_half_even_ge: "\<lfloor>q\<rfloor> \<le> round_half_even q"
  by (simp add: round_half_even_def Let_def)

lemma round_half_even_le: "of_int (round_half_even q) \<le> q + 1"
proof -
  have "of_int (round_half_even q) \<le> (of_int \<lfloor>q\<rfloor> :: rat) + 1"
    by (simp add: round_half_even_def Let_def)
  also have "\<dots> \<le> q + 1" by simp
  finally show ?thesis .
qed

text \<open>A value with a significand below \<open>2^53\<close> and an exponent in range is a double.\<close>

lemma fl_exact:
  assumes x: "x = of_int m * 2 powi e'" and m: "\<bar>m\<bar> < 2 ^ 53" and e': "- 1074 \<le> e'"
    and fin: "\<bar>x\<bar> < 2 ^ 1024"
  shows "fl x = Fin x"
proof (cases "x = 0")
  case True
  then show ?thesis by (simp add: fl_def)
next
  case False
  define a where "a = \<bar>x\<bar>"
  define k where "k = ilog2 a"
  define e where "e = max (k - 52) (- 1074)"
  have pos: "0 < a" using False by (simp add: a_def)
  have p2: "\<And>n. (0::rat) < 2 powi n" by (simp add: zero_less_power_int)
  have a_eq: "a = of_int \<bar>m\<bar> * 2 powi e'" using p2[of e'] by (simp add: a_def x abs_mult)
  have "a < 2 ^ 53 * 2 powi e'"
  proof -
    have "(of_int \<bar>m\<bar> :: rat) < of_int (2 ^ 53)" using m by (simp only: of_int_less_iff)
    then show ?thesis using p2[of e'] by (simp add: a_eq)
  qed
  also have "\<dots> = 2 powi (53 + e')" by (simp add: power_int_add)
  finally have "2 powi k < (2::rat) powi (53 + e')"
    using ilog2_bounds(1)[OF pos] by (simp add: k_def)
  then have "k < 53 + e'"
    by (metis linorder_not_less one_le_numeral power_int_increasing)
  then have ee: "e \<le> e'" using e' by (simp add: e_def)
  have "a / 2 powi e = of_int \<bar>m\<bar> * 2 powi (e' - e)"
    by (simp add: a_eq power_int_diff)
  also have "\<dots> = of_int (\<bar>m\<bar> * 2 ^ nat (e' - e))"
    using ee by (simp add: power_int_def)
  finally have "round_half_even (a / 2 powi e) = \<bar>m\<bar> * 2 ^ nat (e' - e)"
    by (simp only: round_half_even_of_int)
  moreover have "(2::rat) ^ nat (e' - e) = 2 powi (e' - e)"
    using ee by (simp add: power_int_nonneg_exp)
  moreover have "(2::rat) powi (e' - e) * 2 powi e = 2 powi e'"
    by (simp flip: power_int_add)
  ultimately have r: "of_int (round_half_even (a / 2 powi e)) * 2 powi e = a"
    by (simp add: a_eq mult.assoc)
  show ?thesis
    using False r fin
    by (simp add: fl_def Let_def flip: a_def k_def e_def) (auto simp: a_def)
qed

lemma fl_int: "\<bar>n\<bar> < 2 ^ 53 \<Longrightarrow> fl (of_int n) = Fin (of_int n)"
proof -
  assume a: "\<bar>n\<bar> < 2 ^ 53"
  have "(of_int \<bar>n\<bar> :: rat) < of_int (2 ^ 53)" using a by (simp only: of_int_less_iff)
  also have "\<dots> \<le> 2 ^ 1024" by simp
  finally show ?thesis using a by (intro fl_exact[where m = n and e' = 0]) auto
qed

lemma fl_zero [simp]: "fl 0 = Fin 0"
  by (simp add: fl_def)

lemma fl_numeral: "(numeral n :: int) < 2 ^ 53 \<Longrightarrow> fl (numeral n) = Fin (numeral n)"
  using fl_int[of "numeral n"] by simp

lemma fl_neg_numeral: "(numeral n :: int) < 2 ^ 53 \<Longrightarrow> fl (- numeral n) = Fin (- numeral n)"
  using fl_int[of "- numeral n"] by simp

lemma fl_one [simp]: "fl 1 = Fin 1"
  using fl_int[of 1] by simp

lemma fl_neg_one [simp]: "fl (- 1) = Fin (- 1)"
  using fl_int[of "- 1"] by simp

text \<open>Rounding keeps the sign of a value of magnitude at least one.\<close>

lemma fl_sgn:
  assumes "1 \<le> \<bar>x\<bar>"
  shows "num_sgn (fl x) = (if x < 0 then - 1 else 1)"
proof -
  define k where "k = ilog2 \<bar>x\<bar>"
  define e where "e = max (k - 52) (- 1074)"
  define r where "r = (of_int (round_half_even (\<bar>x\<bar> / 2 powi e)) :: rat) * 2 powi e"
  have pos: "0 < \<bar>x\<bar>" using assms by linarith
  have p2: "\<And>n. (0::rat) < 2 powi n" by (simp add: zero_less_power_int)
  have "\<not> k + 1 \<le> 0"
  proof
    assume "k + 1 \<le> 0"
    then have "(2::rat) powi (k + 1) \<le> 2 powi 0" by (intro power_int_increasing) auto
    with ilog2_bounds(2)[OF pos] assms show False by (simp add: k_def)
  qed
  then have k: "0 \<le> k" by simp
  then have e: "e \<le> k" by (auto simp: e_def)
  have "(2::rat) powi e \<le> 2 powi k" using e by (intro power_int_increasing) auto
  also have "\<dots> \<le> \<bar>x\<bar>" using ilog2_bounds(1)[OF pos] by (simp add: k_def)
  finally have "1 \<le> \<bar>x\<bar> / 2 powi e" using p2[of e] by (simp add: le_divide_eq)
  then have "1 \<le> \<lfloor>\<bar>x\<bar> / 2 powi e\<rfloor>" by (simp add: le_floor_iff)
  with round_half_even_ge[of "\<bar>x\<bar> / 2 powi e"] have "1 \<le> round_half_even (\<bar>x\<bar> / 2 powi e)"
    by linarith
  then have "(0::rat) < of_int (round_half_even (\<bar>x\<bar> / 2 powi e))" by simp
  then have r: "0 < r" using p2[of e] by (simp add: r_def)
  have "fl x = (if 2 ^ 1024 \<le> r then (if x < 0 then NInf else PInf)
                else Fin (if x < 0 then - r else r))"
  proof -
    have "x \<noteq> 0" using pos by simp
    then show ?thesis unfolding fl_def Let_def r_def e_def k_def by (simp only: if_False)
  qed
  then show ?thesis using r by (simp add: num_sgn_def)
qed

section \<open>The comparison function\<close>

lemma later_iff:
  "later a b \<longleftrightarrow> (\<exists>ta tb. dateObj a = Some ta \<and> dateObj b = Some tb \<and> tb < ta)"
proof (cases "dateObj a")
  case None
  then show ?thesis
    by (simp add: later_def SortCompare_def byTime_def getTime_def num_sub_def isNaN_def num_sgn_def)
next
  case a: (Some ta)
  show ?thesis
  proof (cases "dateObj b")
    case None
    then show ?thesis
      by (simp add: a later_def SortCompare_def byTime_def getTime_def num_sub_def isNaN_def
            num_sgn_def num_neg_def)
  next
    case b: (Some tb)
    have sub: "byTime a b = fl (of_int (ta - tb))"
      by (simp add: a b byTime_def getTime_def num_sub_def num_neg_def)
    show ?thesis
    proof (cases "ta = tb")
      case True
      then show ?thesis
        by (simp add: a b later_def SortCompare_def sub isNaN_def num_sgn_def fl_def)
    next
      case False
      then have "1 \<le> \<bar>ta - tb\<bar>" by simp
      then have "(of_int 1 :: rat) \<le> of_int \<bar>ta - tb\<bar>" by (simp only: of_int_le_iff)
      then have one: "1 \<le> \<bar>of_int (ta - tb) :: rat\<bar>" by simp
      have sg: "num_sgn (fl (of_int (ta - tb))) = (if ta < tb then - 1 else 1)"
        using fl_sgn[OF one] by simp
      then have "fl (of_int (ta - tb)) \<noteq> NaN" by (auto simp: num_sgn_def split: if_splits)
      then show ?thesis
        using False sg by (auto simp: a b later_def SortCompare_def sub isNaN_def Let_def)
    qed
  qed
qed

text \<open>A bound under which rounding stays finite.\<close>

lemma fl_finite:
  assumes B: "\<bar>x\<bar> \<le> B" and lim: "2 * B + 1 < 2 ^ 1024"
  shows "\<exists>y. fl x = Fin y \<and> \<bar>y\<bar> \<le> 2 * B + 1"
proof (cases "x = 0")
  case True
  then show ?thesis using B by simp
next
  case False
  define a where "a = \<bar>x\<bar>"
  define k where "k = ilog2 a"
  define e where "e = max (k - 52) (- 1074)"
  define r where "r = (of_int (round_half_even (a / 2 powi e)) :: rat) * 2 powi e"
  have pos: "0 < a" using False by (simp add: a_def)
  have p2: "(0::rat) < 2 powi n" for n by (simp add: zero_less_power_int)
  have "(2::rat) powi e \<le> a + 1"
  proof (cases "k - 52 \<le> - 1074")
    case True
    then have "e = - 1074" by (simp add: e_def)
    moreover have "(2::rat) powi (- 1074) \<le> 2 powi 0" by (intro power_int_increasing) auto
    ultimately show ?thesis using pos by simp
  next
    case False
    then have "e \<le> k" by (simp add: e_def)
    then have "(2::rat) powi e \<le> 2 powi k" by (intro power_int_increasing) auto
    also have "\<dots> \<le> a" using ilog2_bounds(1)[OF pos] by (simp add: k_def)
    finally show ?thesis by simp
  qed
  moreover have "r \<le> a + 2 powi e"
  proof -
    have "r \<le> (a / 2 powi e + 1) * 2 powi e"
      unfolding r_def using round_half_even_le[of "a / 2 powi e"] p2[of e]
      by (intro mult_right_mono) auto
    also have "\<dots> = a + 2 powi e" using p2[of e] by (simp add: algebra_simps)
    finally show ?thesis .
  qed
  ultimately have rb: "r \<le> 2 * B + 1" using B by (simp add: a_def)
  have "0 \<le> \<lfloor>a / 2 powi e\<rfloor>" using pos p2[of e] by simp
  then have "0 \<le> round_half_even (a / 2 powi e)"
    using round_half_even_ge[of "a / 2 powi e"] by linarith
  then have r0: "0 \<le> r" using p2[of e] by (simp add: r_def)
  have "fl x = (if 2 ^ 1024 \<le> r then (if x < 0 then NInf else PInf)
                else Fin (if x < 0 then - r else r))"
    using False unfolding fl_def Let_def r_def e_def k_def a_def by (simp only: if_False)
  then have "fl x = Fin (if x < 0 then - r else r)" using rb lim by simp
  then show ?thesis using rb r0 by auto
qed


section \<open>The sort\<close>

lemma length_insertSorted [simp]: "length (insertSorted c x ys) = Suc (length ys)"
  by (induction ys) auto

lemma length_Array_sort [simp]: "length (Array_sort c xs) = length xs"
  by (induction xs) (auto simp: Array_sort_def)

lemma Array_sort_Nil [simp]: "Array_sort c [] = []"
  by (simp add: Array_sort_def)

lemma Array_sort_Cons: "Array_sort c (x # xs) = insertSorted c x (Array_sort c xs)"
  by (simp add: Array_sort_def)

lemma Array_sort_eq_Nil [simp]: "Array_sort c xs = [] \<longleftrightarrow> xs = []"
  using length_Array_sort[of c xs] by (metis length_0_conv)

lemma set_insertSorted [simp]: "set (insertSorted c x ys) = insert x (set ys)"
  by (induction ys) auto

lemma set_Array_sort [simp]: "set (Array_sort c xs) = set xs"
  by (induction xs) (auto simp: Array_sort_Cons)

lemma insertSorted_later:
  "insertSorted byTime x (y # ys) = (if later x y then y # insertSorted byTime x ys else x # y # ys)"
  by (simp add: later_def)

declare insertSorted.simps(2) [simp del]

text \<open>A list the sort leaves alone: no element is later than its successor.\<close>

lemma insertSorted_head: "ys = [] \<or> \<not> later x (hd ys) \<Longrightarrow> insertSorted byTime x ys = x # ys"
  by (cases ys) (auto simp: insertSorted_later)

lemma insertSorted_chain:
  "successively (\<lambda>a b. \<not> later a b) ys \<Longrightarrow>
   successively (\<lambda>a b. \<not> later a b) (insertSorted byTime x ys)"
proof (induction ys)
  case Nil
  then show ?case by simp
next
  case (Cons y ys)
  show ?case
  proof (cases "later x y")
    case True
    then have nyx: "\<not> later y x" by (auto simp: later_iff)
    from Cons have IH: "successively (\<lambda>a b. \<not> later a b) (insertSorted byTime x ys)"
      by (cases ys) auto
    show ?thesis
    proof (cases ys)
      case Nil
      then show ?thesis using True nyx by (simp add: insertSorted_later)
    next
      case (Cons z zs)
      then show ?thesis using True nyx IH Cons.prems
        by (auto simp: insertSorted_later)
    qed
  next
    case False
    then show ?thesis using Cons.prems by (simp add: insertSorted_later)
  qed
qed

lemma Array_sort_chain: "successively (\<lambda>a b. \<not> later a b) (Array_sort byTime xs)"
  by (induction xs) (auto simp: Array_sort_Cons insertSorted_chain)

lemma Array_sort_fixed:
  "successively (\<lambda>a b. \<not> later a b) xs \<Longrightarrow> Array_sort byTime xs = xs"
proof (induction xs)
  case Nil
  then show ?case by simp
next
  case (Cons x xs)
  then have "Array_sort byTime xs = xs" by (cases xs) auto
  then show ?case using Cons.prems by (cases xs) (auto simp: Array_sort_Cons insertSorted_later)
qed

lemma Array_sort_idem [simp]: "Array_sort byTime (Array_sort byTime xs) = Array_sort byTime xs"
  by (rule Array_sort_fixed[OF Array_sort_chain])

text \<open>The sort is stable: the points of one date keep their order.\<close>

lemma filter_insertSorted:
  "filter (\<lambda>p. dateObj p = d) (insertSorted byTime x ys) = filter (\<lambda>p. dateObj p = d) (x # ys)"
  by (induction ys) (auto simp: insertSorted_later later_iff)

lemma filter_Array_sort:
  "filter (\<lambda>p. dateObj p = d) (Array_sort byTime xs) = filter (\<lambda>p. dateObj p = d) xs"
  by (induction xs) (auto simp: Array_sort_Cons filter_insertSorted)

text \<open>On valid dates the sort orders by time.\<close>

lemma sorted_insertSorted:
  assumes "dateObj x \<noteq> None" "\<forall>p\<in>set ys. dateObj p \<noteq> None"
    "sorted_wrt (\<lambda>a b. date_le (dateObj a) (dateObj b)) ys"
  shows "sorted_wrt (\<lambda>a b. date_le (dateObj a) (dateObj b)) (insertSorted byTime x ys)"
  using assms
proof (induction ys)
  case Nil
  then show ?case by simp
next
  case (Cons y ys)
  then show ?case
    by (fastforce simp: insertSorted_later later_iff date_le_def)
qed

lemma sorted_Array_sort:
  "\<forall>p\<in>set xs. dateObj p \<noteq> None \<Longrightarrow>
   sorted_wrt (\<lambda>a b. date_le (dateObj a) (dateObj b)) (Array_sort byTime xs)"
  by (induction xs) (auto simp: Array_sort_Cons sorted_insertSorted)

section \<open>Objects\<close>

lemma obj_get_None_iff: "obj_get g k = None \<longleftrightarrow> k \<notin> set (Object_keys g)"
  by (simp add: obj_get_def Object_keys_def map_of_eq_None_iff)

lemma obj_get_obj_set: "obj_get (obj_set g k v) k' = (if k' = k then Some v else obj_get g k')"
  by (induction g) (auto simp: obj_get_def)

lemma keys_obj_set:
  "Object_keys (obj_set g k v) =
     (if k \<in> set (Object_keys g) then Object_keys g else Object_keys g @ [k])"
  by (induction g) (force simp: Object_keys_def)+

lemma obj_set_same: "obj_get g k = Some v \<Longrightarrow> obj_set g k v = g"
  by (induction g) (auto simp: obj_get_def split: if_splits)

section \<open>Grouping\<close>

text \<open>The callback of forEach never raises; it adds the key of the point when it is new.\<close>

lemma groupPoint_Inr:
  "\<exists>g'. groupPoint g p = Inr g' \<and>
        set (Object_keys g') = insert (monthKey (dateObj p)) (set (Object_keys g)) \<and>
        (groups_ok g \<longrightarrow> groups_ok g')"
proof (cases "obj_get g (monthKey (dateObj p))")
  case None
  then show ?thesis
    by (auto simp: groupPoint_def Let_def obj_get_obj_set keys_obj_set obj_get_None_iff
        groups_ok_def split: if_splits)
next
  case (Some arr)
  then have "monthKey (dateObj p) \<in> set (Object_keys g)"
    using obj_get_None_iff[of g "monthKey (dateObj p)"] by auto
  then show ?thesis using Some
    by (auto simp: groupPoint_def Let_def obj_get_obj_set keys_obj_set groups_ok_def
        split: if_splits)
qed

lemma forEach_group_Inr:
  "\<exists>g'. forEach_group g data = Inr g' \<and>
        set (Object_keys g') = set (Object_keys g) \<union> (\<lambda>p. monthKey (dateObj p)) ` set data \<and>
        (groups_ok g \<longrightarrow> groups_ok g')"
proof (induction data arbitrary: g)
  case Nil
  then show ?case by simp
next
  case (Cons p data)
  obtain g1 where g1: "groupPoint g p = Inr g1"
    "set (Object_keys g1) = insert (monthKey (dateObj p)) (set (Object_keys g))"
    "groups_ok g \<longrightarrow> groups_ok g1"
    using groupPoint_Inr[of g p] by blast
  obtain g' where g': "forEach_group g1 data = Inr g'"
    "set (Object_keys g') = set (Object_keys g1) \<union> (\<lambda>p. monthKey (dateObj p)) ` set data"
    "groups_ok g1 \<longrightarrow> groups_ok g'"
    using Cons.IH[of g1] by blast
  show ?case using g1 g' by auto
qed

section \<open>The records\<close>

lemma lastValue_Inr: "arr \<noteq> [] \<Longrightarrow> lastValue arr = Inr (val (last arr))"
  by (simp add: lastValue_def elem_at_def last_conv_nth)

lemma firstValue_Inr: "arr \<noteq> [] \<Longrightarrow> firstValue arr = Inr (val (hd arr))"
  by (simp add: firstValue_def elem_at_def hd_conv_nth)

lemma sortGroup_Inr:
  "obj_get g k = Some arr \<Longrightarrow>
   sortGroup g (Some k) = Inr (obj_set g k (Array_sort byTime arr), Array_sort byTime arr)"
  by (simp add: sortGroup_def Let_def)

lemma sortedGroup_obj_set:
  "obj_get g k = Some arr \<Longrightarrow> sortedGroup (obj_set g k (Array_sort byTime arr)) = sortedGroup g"
  by (rule ext) (simp add: sortedGroup_def obj_get_obj_set)

lemma groups_ok_obj_set:
  "groups_ok g \<Longrightarrow> obj_get g k = Some arr \<Longrightarrow> groups_ok (obj_set g k (Array_sort byTime arr))"
  using obj_get_None_iff[of g k]
  by (auto simp: groups_ok_def keys_obj_set obj_get_obj_set split: if_splits)

lemma keys_obj_set_present:
  "obj_get g k = Some arr \<Longrightarrow> Object_keys (obj_set g k v) = Object_keys g"
  using obj_get_None_iff[of g k] by (auto simp: keys_obj_set)

lemma monthRecord_Inr:
  assumes ok: "groups_ok g" and i: "i < length ks" and ks: "set ks \<subseteq> set (Object_keys g)"
  shows "\<exists>g'. monthRecord ks g (ks ! i) i = Inr (recordAt g ks i, g') \<and>
              sortedGroup g' = sortedGroup g \<and> Object_keys g' = Object_keys g \<and> groups_ok g'"
proof -
  have "ks ! i \<in> set (Object_keys g)" using i ks by auto
  then obtain arr where arr: "obj_get g (ks ! i) = Some arr"
    using obj_get_None_iff[of g "ks ! i"] by auto
  define g1 where "g1 = obj_set g (ks ! i) (Array_sort byTime arr)"
  have ne: "Array_sort byTime arr \<noteq> []" using ok arr by (auto simp: groups_ok_def)
  have s1: "sortGroup g (Some (ks ! i)) = Inr (g1, Array_sort byTime arr)"
    unfolding g1_def by (rule sortGroup_Inr[OF arr])
  have g1: "sortedGroup g1 = sortedGroup g" "Object_keys g1 = Object_keys g" "groups_ok g1"
    unfolding g1_def
    by (rule sortedGroup_obj_set[OF arr], rule keys_obj_set_present[OF arr],
        rule groups_ok_obj_set[OF ok arr])
  have sg: "sortedGroup g (ks ! i) = Array_sort byTime arr" by (simp add: sortedGroup_def arr)
  show ?thesis
  proof (cases "i = 0")
    case True
    then show ?thesis using s1 ne g1 sg
      by (simp add: monthRecord_def lastValue_Inr firstValue_Inr recordAt_def openOf_def
          closeOf_def)
  next
    case False
    define pk where "pk = ks ! (i - 1)"
    have lt: "i - 1 < length ks" using i by simp
    then have pk: "elem_at ks (i - 1) = Some pk" by (simp add: elem_at_def pk_def)
    have "pk \<in> set (Object_keys g1)" using lt ks g1(2) by (auto simp: pk_def)
    then obtain arr' where arr': "obj_get g1 pk = Some arr'"
      using obj_get_None_iff[of g1 pk] by auto
    define g2 where "g2 = obj_set g1 pk (Array_sort byTime arr')"
    have ne': "Array_sort byTime arr' \<noteq> []" using g1(3) arr' by (auto simp: groups_ok_def)
    have s2: "sortGroup g1 (Some pk) = Inr (g2, Array_sort byTime arr')"
      unfolding g2_def by (rule sortGroup_Inr[OF arr'])
    have g2: "sortedGroup g2 = sortedGroup g1" "Object_keys g2 = Object_keys g1" "groups_ok g2"
      unfolding g2_def
      by (rule sortedGroup_obj_set[OF arr'], rule keys_obj_set_present[OF arr'],
          rule groups_ok_obj_set[OF g1(3) arr'])
    have sg': "sortedGroup g pk = Array_sort byTime arr'"
      by (simp add: sortedGroup_def arr' flip: g1(1))
    have r: "recordAt g ks i =
             growthRecord (ks ! i) (val (last (Array_sort byTime arr')))
               (val (last (Array_sort byTime arr)))"
      using False sg sg' unfolding pk_def recordAt_def closeOf_def by (simp del: One_nat_def)
    have "monthRecord ks g (ks ! i) i = Inr (recordAt g ks i, g2)"
      using False
      by (simp add: monthRecord_def s1 lastValue_Inr[OF ne] pk s2 lastValue_Inr[OF ne'] r
          del: One_nat_def)
    then show ?thesis using g1 g2 by simp
  qed
qed

lemma recordAt_cong:
  "sortedGroup g' = sortedGroup g \<Longrightarrow> recordAt g' ks j = recordAt g ks j"
  by (simp add: recordAt_def openOf_def closeOf_def)

lemma mapRecords_Inr:
  assumes "groups_ok g" "set ks \<subseteq> set (Object_keys g)" "i + length rest = length ks"
    "rest = drop i ks"
  shows "mapRecords ks g i rest = Inr (map (recordAt g ks) [i..<length ks])"
  using assms
proof (induction rest arbitrary: g i)
  case Nil
  then show ?case by simp
next
  case (Cons k rest)
  have i: "i < length ks" using Cons.prems(3) by simp
  have k: "k = ks ! i" using Cons.prems(4) i by (metis Cons_nth_drop_Suc list.inject)
  have rest: "rest = drop (Suc i) ks" using Cons.prems(4) i by (metis Cons_nth_drop_Suc list.inject)
  obtain g' where g': "monthRecord ks g (ks ! i) i = Inr (recordAt g ks i, g')"
    "sortedGroup g' = sortedGroup g" "Object_keys g' = Object_keys g" "groups_ok g'"
    using monthRecord_Inr[OF Cons.prems(1) i Cons.prems(2)] by blast
  have "mapRecords ks g' (Suc i) rest = Inr (map (recordAt g' ks) [Suc i..<length ks])"
    using Cons.prems g' rest by (intro Cons.IH) auto
  then have "mapRecords ks g' (Suc i) rest = Inr (map (recordAt g ks) [Suc i..<length ks])"
    by (simp add: recordAt_cong[OF g'(2)])
  then show ?case using g'(1) i by (simp add: k upt_conv_Cons)
qed

text \<open>The result of calculateMonthlyGrowth: one record for each key, in sorted order.\<close>

lemma calculateMonthlyGrowth_Inr:
  "\<exists>g. forEach_group [] data = Inr g \<and> groups_ok g \<and>
       set (Object_keys g) = (\<lambda>p. monthKey (dateObj p)) ` set data \<and>
       calculateMonthlyGrowth data =
         Inr (map (recordAt g (sort (Object_keys g))) [0..<length (Object_keys g)])"
proof -
  obtain g where g: "forEach_group [] data = Inr g" "groups_ok g"
    "set (Object_keys g) = (\<lambda>p. monthKey (dateObj p)) ` set data"
    using forEach_group_Inr[of "[]" data] by (auto simp: groups_ok_def Object_keys_def obj_get_def)
  have "mapRecords (sort (Object_keys g)) g 0 (sort (Object_keys g)) =
        Inr (map (recordAt g (sort (Object_keys g))) [0..<length (sort (Object_keys g))])"
    using g(2) by (intro mapRecords_Inr) auto
  then show ?thesis using g by (auto simp: calculateMonthlyGrowth_def Let_def)
qed

text \<open>On safe integers the percentage is a finite number.\<close>

lemma growthPercent_finite:
  assumes "isSafeInteger s" "isSafeInteger t"
  shows "isFinite (growthPercent (growthRecord k s t))"
proof -
  have safe: "\<exists>m::int. x = Fin (of_int m) \<and> \<bar>m\<bar> < 2 ^ 53" if "isSafeInteger x" for x
  proof -
    from that obtain a where a: "x = Fin a" "a = of_int \<lfloor>a\<rfloor>" "\<bar>a\<bar> < 2 ^ 53"
      by (auto simp: isSafeInteger_def split: jsnum.splits)
    have "(of_int \<bar>\<lfloor>a\<rfloor>\<bar> :: rat) < of_int (2 ^ 53)" using a(2,3) by simp
    then have "\<bar>\<lfloor>a\<rfloor>\<bar> < 2 ^ 53" by (simp only: of_int_less_iff)
    then show ?thesis using a(1,2) by blast
  qed
  obtain m n :: int where s: "s = Fin (of_int m)" "\<bar>m\<bar> < 2 ^ 53"
    and t: "t = Fin (of_int n)" "\<bar>n\<bar> < 2 ^ 53"
    using safe[OF assms(1)] safe[OF assms(2)] by auto
  show ?thesis
  proof (cases "m = 0")
    case True
    then show ?thesis by (simp add: growthRecord_def s isFinite_def)
  next
    case False
    have "\<bar>n - m\<bar> \<le> 2 ^ 54" using s(2) t(2) by simp
    then have "(of_int \<bar>n - m\<bar> :: rat) \<le> of_int (2 ^ 54)" by (simp only: of_int_le_iff)
    then have "\<bar>of_int n - of_int m :: rat\<bar> \<le> 2 ^ 54" by simp
    from fl_finite[OF this] obtain g where g: "fl (of_int n - of_int m) = Fin g" "\<bar>g\<bar> \<le> 2 * 2 ^ 54 + 1"
      by auto
    have "1 \<le> \<bar>m\<bar>" using False by simp
    then have "(of_int 1 :: rat) \<le> of_int \<bar>m\<bar>" by (simp only: of_int_le_iff)
    then have m1: "1 \<le> \<bar>of_int m :: rat\<bar>" by simp
    have "\<bar>g / of_int m\<bar> = \<bar>g\<bar> / \<bar>of_int m\<bar>" by simp
    also have "\<dots> \<le> \<bar>g\<bar> / 1" using m1 by (intro divide_left_mono) auto
    finally have "\<bar>g / of_int m\<bar> \<le> 2 * 2 ^ 54 + 1" using g(2) by simp
    from fl_finite[OF this] obtain q where q: "fl (g / of_int m) = Fin q" "\<bar>q\<bar> \<le> 2 * (2 * 2 ^ 54 + 1) + 1"
      by auto
    have "\<bar>q * 100\<bar> \<le> (2 * (2 * 2 ^ 54 + 1) + 1) * 100" using q(2) by (simp add: abs_mult)
    from fl_finite[OF this] obtain p where p: "fl (q * 100) = Fin p"
      by auto
    show ?thesis using False g q p
      by (simp add: growthRecord_def Let_def s t num_sub_def num_neg_def isFinite_def)
  qed
qed

section \<open>The calendar\<close>

lemma div_add_one:
  fixes x c :: int
  assumes "0 < c"
  shows "(x + 1) div c = x div c + (if c dvd (x + 1) then 1 else 0)"
proof -
  have r: "0 \<le> x mod c" "x mod c < c" using assms by simp_all
  have x: "x = c * (x div c) + x mod c" by simp
  show ?thesis
  proof (cases "x mod c = c - 1")
    case True
    have e: "x + 1 = c * (x div c + 1) + 0"
    proof -
      have "x + 1 = c * (x div c) + c" using x True by linarith
      then show ?thesis by (simp add: distrib_left)
    qed
    have z: "(0::int) \<le> 0" by simp
    have "(x + 1) div c = x div c + 1" "(x + 1) mod c = 0"
      by (rule int_div_pos_eq[OF e z assms], rule int_mod_pos_eq[OF e z assms])
    then show ?thesis by (simp add: mod_eq_0_iff_dvd)
  next
    case False
    have r1: "0 \<le> x mod c + 1" "x mod c + 1 < c" using r False by linarith+
    have e: "x + 1 = c * (x div c) + (x mod c + 1)" using x by linarith
    have "(x + 1) div c = x div c" "(x + 1) mod c = x mod c + 1"
      by (rule int_div_pos_eq[OF e r1], rule int_mod_pos_eq[OF e r1])
    moreover have "x mod c + 1 \<noteq> 0" using r by linarith
    ultimately show ?thesis by (simp add: dvd_eq_mod_eq_0)
  qed
qed

lemma DayFromYear_Suc: "DayFromYear (y + 1) = DayFromYear y + DaysInYear y"
proof -
  have a: "(y + 1 - 1969) div 4 = (y - 1969) div 4 + (if 4 dvd y then 1 else 0)"
  proof -
    have "4 dvd (y - 1969 + 1) \<longleftrightarrow> 4 dvd y"
      using dvd_diff_left_iff[of 4 1968 y] by simp
    moreover have "y + 1 - 1969 = y - 1969 + 1" by simp
    ultimately show ?thesis using div_add_one[of 4 "y - 1969"] by simp
  qed
  have b: "(y + 1 - 1901) div 100 = (y - 1901) div 100 + (if 100 dvd y then 1 else 0)"
  proof -
    have "100 dvd (y - 1901 + 1) \<longleftrightarrow> 100 dvd y"
      using dvd_diff_left_iff[of 100 1900 y] by simp
    moreover have "y + 1 - 1901 = y - 1901 + 1" by simp
    ultimately show ?thesis using div_add_one[of 100 "y - 1901"] by simp
  qed
  have c: "(y + 1 - 1601) div 400 = (y - 1601) div 400 + (if 400 dvd y then 1 else 0)"
  proof -
    have "400 dvd (y - 1601 + 1) \<longleftrightarrow> 400 dvd y"
      using dvd_diff_left_iff[of 400 1600 y] by simp
    moreover have "y + 1 - 1601 = y - 1601 + 1" by simp
    ultimately show ?thesis using div_add_one[of 400 "y - 1601"] by simp
  qed
  have d: "100 dvd y \<Longrightarrow> 4 dvd y" "400 dvd y \<Longrightarrow> 100 dvd y"
    by auto
  show ?thesis
    using d unfolding DayFromYear_def DaysInYear_def a b c
    by (auto simp: mod_eq_0_iff_dvd)
qed

lemma DaysInYear_range: "DaysInYear y = 365 \<or> DaysInYear y = 366"
  by (simp add: DaysInYear_def)

lemma DayFromYear_1970 [simp]: "DayFromYear 1970 = 0"
  by (simp add: DayFromYear_def)

text \<open>From 1970 on, the first day of a year lies between 365 and 366 days a year.\<close>

lemma DayFromYear_upper:
  "0 \<le> n \<Longrightarrow> 365 * n \<le> DayFromYear (1970 + n) \<and> DayFromYear (1970 + n) \<le> 366 * n"
proof (induction n rule: int_ge_induct)
  case base
  then show ?case by simp
next
  case (step n)
  have "DayFromYear (1970 + (n + 1)) = DayFromYear (1970 + n) + DaysInYear (1970 + n)"
    using DayFromYear_Suc[of "1970 + n"] by (simp add: add.assoc)
  then show ?case using step DaysInYear_range[of "1970 + n"] by auto
qed

lemma DayFromYear_lower:
  "n \<le> 0 \<Longrightarrow> 366 * n \<le> DayFromYear (1970 + n) \<and> DayFromYear (1970 + n) \<le> 365 * n"
proof (induction n rule: int_le_induct)
  case base
  then show ?case by simp
next
  case (step n)
  have "DayFromYear (1970 + n) = DayFromYear (1970 + (n - 1)) + DaysInYear (1970 + (n - 1))"
    using DayFromYear_Suc[of "1970 + (n - 1)"] by (simp add: algebra_simps)
  then show ?case using step DaysInYear_range[of "1970 + (n - 1)"] by auto
qed

lemma DayFromYear_strict_mono: "y < z \<Longrightarrow> DayFromYear y < DayFromYear z"
proof (induction z rule: int_gr_induct)
  case base
  then show ?case using DayFromYear_Suc[of y] DaysInYear_range[of y] by auto
next
  case (step z)
  then show ?case using DayFromYear_Suc[of z] DaysInYear_range[of z] by auto
qed

lemma DayFromYear_le_iff: "DayFromYear y \<le> DayFromYear z \<longleftrightarrow> y \<le> z"
  using DayFromYear_strict_mono[of y z] DayFromYear_strict_mono[of z y]
  by (cases y z rule: linorder_cases) auto

lemma sorted_le_last: "x \<in> set xs \<Longrightarrow> sorted xs \<Longrightarrow> x \<le> last xs"
  for x :: int
  by (induction xs) (auto split: if_splits)

text \<open>The search of YearFromDay returns the last year of its window that passes the test.\<close>

lemma fold_last:
  "fold (\<lambda>y best. if P y then y else best) xs b =
     (if filter P xs = [] then b else last (filter P xs))"
  by (induction xs arbitrary: b rule: rev_induct) auto

text \<open>
  YearFromDay meets the definition of YearFromTime: the largest year whose first day is
  not after the given day.
\<close>

lemma YearFromDay_spec:
  "DayFromYear (YearFromDay d) \<le> d \<and> d < DayFromYear (YearFromDay d + 1)"
proof -
  define lo where "lo = 1970 + min (d div 365) (d div 366) - 1"
  define hi where "hi = 1970 + max (d div 365) (d div 366) + 1"
  define P where "P y \<longleftrightarrow> DayFromYear y \<le> d" for y
  define r where "r = YearFromDay d"
  define q5 where "q5 = d div 365"
  define q6 where "q6 = d div 366"
  have lohi: "lo \<le> hi" by (simp add: lo_def hi_def)
  have d365: "365 * q5 \<le> d" "d < 365 * q5 + 365"
    unfolding q5_def
    using mult_div_mod_eq[of 365 d] pos_mod_bound[of 365 d] pos_mod_sign[of 365 d] by linarith+
  have d366: "366 * q6 \<le> d" "d < 366 * q6 + 366"
    unfolding q6_def
    using mult_div_mod_eq[of 366 d] pos_mod_bound[of 366 d] pos_mod_sign[of 366 d] by linarith+
  have lo_b: "lo - 1970 \<le> q6 - 1" "lo - 1970 \<le> q5 - 1"
    by (simp_all add: lo_def q5_def q6_def)
  have hi_b: "q5 + 2 \<le> hi + 1 - 1970" "q6 + 2 \<le> hi + 1 - 1970"
    by (simp_all add: hi_def q5_def q6_def)
  have Plo: "P lo"
  proof (cases "0 \<le> lo - 1970")
    case True
    have "DayFromYear (1970 + (lo - 1970)) \<le> 366 * (lo - 1970)"
      using DayFromYear_upper[OF True] by blast
    moreover have "366 * (lo - 1970) \<le> d" using d366 lo_b by (simp add: algebra_simps)
    ultimately show ?thesis by (simp add: P_def add.commute)
  next
    case False
    then have "lo - 1970 \<le> 0" by simp
    then have "DayFromYear (1970 + (lo - 1970)) \<le> 365 * (lo - 1970)"
      using DayFromYear_lower by blast
    moreover have "365 * (lo - 1970) \<le> d" using d365 lo_b by (simp add: algebra_simps)
    ultimately show ?thesis by (simp add: P_def add.commute)
  qed
  have Phi: "\<not> P (hi + 1)"
  proof (cases "0 \<le> hi + 1 - 1970")
    case True
    have "365 * (hi + 1 - 1970) \<le> DayFromYear (1970 + (hi + 1 - 1970))"
      using DayFromYear_upper[OF True] by blast
    moreover have "d < 365 * (hi + 1 - 1970)" using d365 hi_b by (simp add: algebra_simps)
    ultimately show ?thesis by (simp add: P_def add.commute)
  next
    case False
    then have "hi + 1 - 1970 \<le> 0" by simp
    then have "366 * (hi + 1 - 1970) \<le> DayFromYear (1970 + (hi + 1 - 1970))"
      using DayFromYear_lower by blast
    moreover have "d < 366 * (hi + 1 - 1970)" using d366 hi_b by (simp add: algebra_simps)
    ultimately show ?thesis by (simp add: P_def add.commute)
  qed
  have ne: "filter P [lo..hi] \<noteq> []" using Plo lohi by (auto simp: filter_empty_conv)
  have r: "r = last (filter P [lo..hi])"
    using ne by (simp add: r_def YearFromDay_def Let_def fold_last flip: lo_def hi_def P_def)
  have "last (filter P [lo..hi]) \<in> set (filter P [lo..hi])" using ne by (rule last_in_set)
  then have "r \<in> set (filter P [lo..hi])" by (simp only: r)
  then have rP: "P r" "lo \<le> r" "r \<le> hi" by auto
  have "\<not> P (r + 1)"
  proof (cases "r = hi")
    case True
    then show ?thesis using Phi by simp
  next
    case False
    show ?thesis
    proof
      assume "P (r + 1)"
      then have "r + 1 \<in> set (filter P [lo..hi])" using rP False by auto
      moreover have "sorted (filter P [lo..hi])" by (simp add: sorted_wrt_filter)
      ultimately have "r + 1 \<le> last (filter P [lo..hi])"
        by (rule sorted_le_last)
      then show False using r by simp
    qed
  qed
  then show ?thesis using rP(1) by (simp add: P_def r_def)
qed

lemma YearFromDay_largest: "DayFromYear y \<le> d \<longleftrightarrow> y \<le> YearFromDay d"
proof
  assume "DayFromYear y \<le> d"
  then have "DayFromYear y < DayFromYear (YearFromDay d + 1)"
    using YearFromDay_spec[of d] by linarith
  then have "\<not> DayFromYear (YearFromDay d + 1) \<le> DayFromYear y" by simp
  then have "\<not> YearFromDay d + 1 \<le> y" by (simp only: DayFromYear_le_iff simp_thms)
  then show "y \<le> YearFromDay d" by linarith
next
  assume "y \<le> YearFromDay d"
  then have "DayFromYear y \<le> DayFromYear (YearFromDay d)" by (simp add: DayFromYear_le_iff)
  then show "DayFromYear y \<le> d" using YearFromDay_spec[of d] by linarith
qed

lemma YearFromDay_unique:
  assumes "DayFromYear y \<le> d" "d < DayFromYear (y + 1)"
  shows "YearFromDay d = y"
proof -
  have "y \<le> YearFromDay d" using assms(1) by (simp add: YearFromDay_largest)
  moreover have "\<not> y + 1 \<le> YearFromDay d" using assms(2) by (simp flip: YearFromDay_largest)
  ultimately show ?thesis by simp
qed

text \<open>
  A date built from a year, a month from 0 to 11 and a day from 1 to 28 has that year and
  that month.
\<close>

lemma year_month_of_MakeDay:
  assumes "0 \<le> mn" "mn \<le> 11" "1 \<le> dt" "dt \<le> 28"
  shows "YearFromTime (MakeDate (DayFromYear y + daysBeforeMonth y mn + dt - 1) 0) = y \<and>
         MonthFromTime (MakeDate (DayFromYear y + daysBeforeMonth y mn + dt - 1) 0) = mn"
proof -
  define l :: int where "l = (if DaysInYear y = 366 then 1 else 0)"
  define off where "off = daysBeforeMonth y mn + dt - 1"
  define t where "t = MakeDate (DayFromYear y + off) 0"
  have l: "l = 0 \<or> l = 1" "DaysInYear y = 365 + l"
    using DaysInYear_range[of y] by (auto simp: l_def)
  have mn: "mn = 0 \<or> mn = 1 \<or> mn = 2 \<or> mn = 3 \<or> mn = 4 \<or> mn = 5 \<or> mn = 6 \<or> mn = 7 \<or>
            mn = 8 \<or> mn = 9 \<or> mn = 10 \<or> mn = 11"
    using assms(1,2) by presburger
  have before: "daysBeforeMonth y mn =
     (if mn = 0 then 0 else if mn = 1 then 31 else if mn = 2 then 59 + l
      else if mn = 3 then 90 + l else if mn = 4 then 120 + l else if mn = 5 then 151 + l
      else if mn = 6 then 181 + l else if mn = 7 then 212 + l else if mn = 8 then 243 + l
      else if mn = 9 then 273 + l else if mn = 10 then 304 + l else 334 + l)"
    by (simp add: daysBeforeMonth_def Let_def l_def)
  have off: "0 \<le> off \<and> off < 365"
    using mn l(1) assms(3,4) unfolding off_def before by (elim disjE; simp)
  have day: "Day t = DayFromYear y + off" by (simp add: t_def MakeDate_def Day_def msPerDay_def)
  have "DayFromYear y + off < DayFromYear (y + 1)"
    using off l(1) unfolding DayFromYear_Suc l(2) by (elim disjE; simp)
  then have yr: "YearFromTime t = y"
    unfolding YearFromTime_def day using off by (intro YearFromDay_unique) simp_all
  have dwy: "DayWithinYear t = off" by (simp add: DayWithinYear_def day yr)
  have leap: "InLeapYear t = l" by (simp add: InLeapYear_def yr l_def)
  have "MonthFromTime t = mn"
    unfolding MonthFromTime_def dwy leap Let_def off_def before
    using mn l(1) assms(3,4) by (elim disjE; simp)
  then show ?thesis using yr by (simp add: t_def off_def algebra_simps)
qed

section \<open>Month keys\<close>

lemma digitsValue_snoc: "digitsValue (ds @ [c]) = 10 * digitsValue ds + (c - 0x30)"
  by (simp add: digitsValue_def)

lemma digitsValue_natDigits: "digitsValue (natDigits n) = n"
proof (induction n rule: natDigits.induct)
  case (1 n)
  show ?case
  proof (cases "n < 10")
    case True
    then show ?thesis by (subst natDigits.simps) (simp add: digitsValue_def)
  next
    case False
    then show ?thesis using 1 by (subst natDigits.simps) (simp add: digitsValue_snoc)
  qed
qed

lemma natDigits_hd: "natDigits n \<noteq> [] \<and> isDigit (hd (natDigits n))"
proof (induction n rule: natDigits.induct)
  case (1 n)
  show ?case
  proof (cases "n < 10")
    case True
    then show ?thesis by (subst (1 2) natDigits.simps) (simp add: isDigit_def)
  next
    case False
    then show ?thesis using 1 by (subst (1 2) natDigits.simps) simp
  qed
qed

lemma natDigits_inj: "natDigits n = natDigits m \<Longrightarrow> n = m"
  by (metis digitsValue_natDigits)

lemma ToString_Some_hd:
  "ToString (Some i) \<noteq> [] \<and> (hd (ToString (Some i)) = 0x2D \<or> isDigit (hd (ToString (Some i))))"
  using natDigits_hd by (simp add: ToString_def)

lemma ToString_inj: "ToString (Some i) = ToString (Some j) \<Longrightarrow> i = j"
proof -
  assume a: "ToString (Some i) = ToString (Some j)"
  have nd: "hd (natDigits n) \<noteq> 0x2D" for n
    using natDigits_hd[of n] by (auto simp: isDigit_def)
  consider "i < 0" "j < 0" | "0 \<le> i" "0 \<le> j" | "i < 0" "0 \<le> j" | "0 \<le> i" "j < 0" by linarith
  then show ?thesis
  proof cases
    case 1
    then have "natDigits (nat (- i)) = natDigits (nat (- j))" using a by (simp add: ToString_def)
    then have "nat (- i) = nat (- j)" by (rule natDigits_inj)
    then show ?thesis using 1 by simp
  next
    case 2
    then have "natDigits (nat i) = natDigits (nat j)" using a by (simp add: ToString_def)
    then have "nat i = nat j" by (rule natDigits_inj)
    then show ?thesis using 2 by simp
  next
    case 3
    then have "0x2D # natDigits (nat (- i)) = natDigits (nat j)" using a by (simp add: ToString_def)
    then have "hd (natDigits (nat j)) = 0x2D" by (metis list.sel(1))
    then show ?thesis using nd by blast
  next
    case 4
    then have "natDigits (nat i) = 0x2D # natDigits (nat (- j))" using a by (simp add: ToString_def)
    then have "hd (natDigits (nat i)) = 0x2D" by (metis list.sel(1))
    then show ?thesis using nd by blast
  qed
qed

lemma MonthFromTime_range: "0 \<le> MonthFromTime t \<and> MonthFromTime t \<le> 11"
  by (simp add: MonthFromTime_def Let_def)

lemma monthPart_cases:
  assumes "0 \<le> m" "m \<le> 11"
  shows "monthPart m = (if m + 1 < 10 then [0x30, 0x30 + nat (m + 1)]
                        else [0x30 + nat (m + 1) div 10, 0x30 + nat (m + 1) mod 10])"
proof (cases "m + 1 < 10")
  case True
  then have "nat (m + 1) < 10" using assms by linarith
  then have "natDigits (nat (m + 1)) = [0x30 + nat (m + 1)]"
    by (subst natDigits.simps) simp
  then show ?thesis using True assms by (simp add: monthPart_def ToString_def padStart_def)
next
  case False
  then have a: "\<not> nat (m + 1) < 10" "nat (m + 1) div 10 < 10" using assms by auto
  have "natDigits (nat (m + 1)) = natDigits (nat (m + 1) div 10) @ [0x30 + nat (m + 1) mod 10]"
    using a(1) by (subst natDigits.simps) simp
  also have "natDigits (nat (m + 1) div 10) = [0x30 + nat (m + 1) div 10]"
    using a(2) by (subst natDigits.simps) simp
  finally show ?thesis using False assms by (simp add: monthPart_def ToString_def padStart_def)
qed

lemma monthPart_length: "0 \<le> m \<Longrightarrow> m \<le> 11 \<Longrightarrow> length (monthPart m) = 2"
  by (simp add: monthPart_cases)

lemma monthPart_inj:
  assumes "0 \<le> m" "m \<le> 11" "0 \<le> n" "n \<le> 11" "monthPart m = monthPart n"
  shows "m = n"
proof -
  have dv: "digitsValue (monthPart k) = nat (k + 1)" if "0 \<le> k" "k \<le> 11" for k
    using that by (simp add: monthPart_cases digitsValue_def)
  have "digitsValue (monthPart m) = digitsValue (monthPart n)" using assms(5) by simp
  then have "nat (m + 1) = nat (n + 1)" using assms(1-4) by (simp only: dv)
  then show ?thesis using assms(1-4) by linarith
qed

lemma monthKey_Some:
  "monthKey (Some t) = ToString (Some (YearFromTime t)) @ 0x2D # monthPart (MonthFromTime t)"
  by (simp add: monthKey_def getFullYear_def getMonth_def monthPart_def js_def)

lemma monthKey_None: "monthKey None = js ''NaN-NaN''"
  by (simp add: monthKey_def getFullYear_def getMonth_def ToString_def padStart_def js_def)

lemma monthKey_eq_iff:
  "monthKey d = monthKey d' \<longleftrightarrow>
   getFullYear d = getFullYear d' \<and> getMonth d = getMonth d'"
proof (cases d)
  case None
  show ?thesis
  proof (cases d')
    case n: None
    then show ?thesis using None by simp
  next
    case (Some t')
    have "hd (monthKey (Some t')) \<noteq> hd (monthKey None)"
      using ToString_Some_hd[of "YearFromTime t'"]
      by (auto simp: monthKey_Some monthKey_None js_def isDigit_def)
    then show ?thesis using None Some by (auto simp: getFullYear_def)
  qed
next
  case (Some t)
  show ?thesis
  proof (cases d')
    case None
    have "hd (monthKey (Some t)) \<noteq> hd (monthKey None)"
      using ToString_Some_hd[of "YearFromTime t"]
      by (auto simp: monthKey_Some monthKey_None js_def isDigit_def)
    then show ?thesis using None Some by (auto simp: getFullYear_def)
  next
    case s: (Some t')
    have len: "length (0x2D # monthPart (MonthFromTime t)) = length (0x2D # monthPart (MonthFromTime t'))"
      using MonthFromTime_range by (simp add: monthPart_length)
    have "monthKey (Some t) = monthKey (Some t') \<longleftrightarrow>
          ToString (Some (YearFromTime t)) = ToString (Some (YearFromTime t')) \<and>
          monthPart (MonthFromTime t) = monthPart (MonthFromTime t')"
      unfolding monthKey_Some using append_eq_append_conv[OF disjI2[OF len]] by simp
    also have "\<dots> \<longleftrightarrow> YearFromTime t = YearFromTime t' \<and> MonthFromTime t = MonthFromTime t'"
      using ToString_inj monthPart_inj MonthFromTime_range by metis
    finally show ?thesis using Some s by (simp add: getFullYear_def getMonth_def)
  qed
qed

lemma card_image_kernel:
  assumes "finite S" "\<forall>x\<in>S. \<forall>y\<in>S. f x = f y \<longleftrightarrow> g x = g y"
  shows "card (f ` S) = card (g ` S)"
proof -
  define h where "h z = f (SOME x. x \<in> S \<and> g x = z)" for z
  have hg: "h (g x) = f x" if "x \<in> S" for x
  proof -
    have "(SOME y. y \<in> S \<and> g y = g x) \<in> S \<and> g (SOME y. y \<in> S \<and> g y = g x) = g x"
      using that by (intro someI[of "\<lambda>y. y \<in> S \<and> g y = g x" x]) simp
    then show ?thesis using assms(2) that by (simp add: h_def)
  qed
  have "f ` S = h ` (g ` S)" using hg by (force simp: image_iff)
  moreover have "inj_on h (g ` S)"
    using hg assms(2) by (auto simp: inj_on_def)
  ultimately show ?thesis by (simp add: card_image)
qed

section \<open>Evaluation on concrete inputs\<close>

lemmas js_defs = js_def isLineTerminator_def isWhiteSpace_def trimStart_def trimEnd_def trim_def
  removeAll_char_def stripNumber_def padStart_def elem_at_def num_neg_def num_sub_def num_sgn_def
  signed_inf_def isNaN_def trunc_def isDigit_def digitsValue_def stripSign_def parseInt_def
  exponentPart_def strUnsignedDecimalLiteral_def parseFloat_def radixDigit_def radixValue_def
  nonDecimalIntegerLiteral_def Number_def msPerDay_def Day_def DaysInYear_def DayFromYear_def
  YearFromDay_def YearFromTime_def InLeapYear_def DayWithinYear_def MonthFromTime_def
  daysBeforeMonth_def MakeDay_def MakeFullYear_def MakeDate_def TimeClip_def newDate_def
  getTime_def getFullYear_def getMonth_def natDigits.simps ToString_def lookahead_def
  bareChar_def matchAt_def String_match_def Array_sort_Cons insertSorted_later later_iff
  ToNumber_def parseDate_def parseLine_def dataLines_def parseCSV_def obj_get_def Object_keys_def monthKey_def
  groupPoint_def lastValue_def firstValue_def sortGroup_def monthRecord_def growthRecord_def
  calculateMonthlyGrowth_def Let_def fl_numeral fl_neg_numeral


lemma floor_rat_numeral_div:
  "\<lfloor>(numeral a :: rat) / numeral b\<rfloor> = numeral a div numeral b"
  "\<lfloor>- ((numeral a :: rat) / numeral b)\<rfloor> = - numeral a div numeral b"
  by (metis floor_divide_of_int_eq of_int_numeral,
      metis floor_divide_of_int_eq of_int_numeral of_int_minus minus_divide_left)

text \<open>The quotient 100 / 1000 in double arithmetic, and its product with 100.\<close>

lemma fl_tenth: "fl (1 / 10) = Fin (3602879701896397 / 36028797018963968)"
  by (subst fl_cases[where k = "- 4"]) (simp_all add: round_half_even_def Let_def floor_rat_numeral_div)

lemma fl_tenth_times_100: "fl (90071992547409925 / 9007199254740992) = Fin 10"
  by (subst fl_cases[where k = 3]) (simp_all add: round_half_even_def Let_def floor_rat_numeral_div)

lemma percent_ten:
  "num_mul (num_div (Fin 100) (Fin 1000)) (Fin 100) = Fin 10"
  "num_mul (num_div (Fin 110) (Fin 1100)) (Fin 100) = Fin 10"
  by (simp_all add: fl_tenth fl_tenth_times_100)


section \<open>The lines of parseCSV\<close>

text \<open>What parseLine returns, by the number of tokens of the line.\<close>

lemma parseLine_tokens:
  "parseLine line =
     (case matchAll line of
        d # m1 # ms \<Rightarrow>
          Inr (Some \<lparr>date = d, dateObj = parseDate d, val = parseInt (stripNumber m1),
                     index = (case ms of
                                [] \<Rightarrow> None
                              | m2 # _ \<Rightarrow>
                                  if isNaN (parseFloat (stripNumber m2)) then None
                                  else Some (parseFloat (stripNumber m2)))\<rparr>)
      | _ \<Rightarrow> Inr None)"
  by (auto simp: parseLine_def String_match_def elem_at_def Let_def split: list.splits)

lemma parseLine_Inr: "parseLine line = Inr (lineResult line)"
  by (simp add: lineResult_def parseLine_tokens split: list.splits)

lemma lineResult_None_iff: "lineResult line = None \<longleftrightarrow> length (matchAll line) < 2"
  by (simp add: lineResult_def parseLine_tokens split: list.splits)

lemma mapE_parseLine: "mapE parseLine ls = Inr (map lineResult ls)"
  by (induction ls) (simp_all add: parseLine_Inr)

lemma parseCSV_Inr:
  "parseCSV text = Inr (Array_sort byTime (notNull (map lineResult (dataLines text))))"
  by (simp add: parseCSV_def mapE_parseLine)

lemma length_notNull: "length (notNull xs) = length (filter (\<lambda>x. x \<noteq> None) xs)"
  by (induction xs rule: notNull.induct) auto

lemma length_points:
  "length (notNull (map lineResult ls)) = length (filter (\<lambda>l. 2 \<le> length (matchAll l)) ls)"
proof (induction ls)
  case Nil
  then show ?case by simp
next
  case (Cons l ls)
  show ?case
  proof (cases "lineResult l")
    case None
    then have "length (matchAll l) < 2" by (simp add: lineResult_None_iff)
    then show ?thesis using None Cons by simp
  next
    case (Some p)
    then have "\<not> length (matchAll l) < 2" using lineResult_None_iff[of l] by simp
    then show ?thesis using Some Cons by simp
  qed
qed

lemma split_str_single: "sep \<notin> set s \<Longrightarrow> split_str sep s = [s]"
  by (induction s) auto

lemma calculateMonthlyGrowth_Nil: "calculateMonthlyGrowth [] = Inr []"
  by (simp add: calculateMonthlyGrowth_def Object_keys_def)


section \<open>The store and the object it stands for\<close>

lemma obj_set_absent: "k \<notin> set (Object_keys g) \<Longrightarrow> obj_set g k v = g @ [(k, v)]"
  by (induction g) (auto simp: Object_keys_def)

lemma obj_set_twice: "obj_set (obj_set g k v) k w = obj_set g k w"
  by (induction g) auto

lemma keys_absG [simp]: "Object_keys (absG s g) = Object_keys g"
  by (induction g) (auto simp: absG_def Object_keys_def)

lemma obj_get_absG:
  "obj_get (absG s g) k =
     map_option (\<lambda>a. case arrays s a of None \<Rightarrow> [] | Some arr \<Rightarrow> arr) (obj_get g k)"
  by (induction g) (auto simp: absG_def obj_get_def)

lemma absG_cong:
  "\<forall>(k, a)\<in>set g. arrays s' a = arrays s a \<Longrightarrow> absG s' g = absG s g"
  by (induction g) (auto simp: absG_def)

lemma absG_append: "absG s (g @ h) = absG s g @ absG s h"
  by (simp add: absG_def)

text \<open>Writing the array a key refers to is an assignment to that key.\<close>

lemma absG_write:
  assumes "obj_get g k = Some a" "distinct (map snd g)"
  shows "absG (s\<lparr>arrays := (arrays s)(a \<mapsto> v)\<rparr>) g = obj_set (absG s g) k v"
  using assms
proof (induction g)
  case Nil
  then show ?case by (simp add: obj_get_def)
next
  case (Cons e g)
  obtain k' a' where e: "e = (k', a')" by (cases e)
  show ?case
  proof (cases "k' = k")
    case True
    then have a: "a' = a" using Cons.prems(1) by (simp add: e obj_get_def)
    have "a \<notin> snd ` set g" using Cons.prems(2) by (simp add: e a)
    then have "\<forall>(j, b)\<in>set g. b \<noteq> a" by force
    then have "absG (s\<lparr>arrays := (arrays s)(a \<mapsto> v)\<rparr>) g = absG s g"
      by (intro absG_cong) auto
    then show ?thesis using True by (simp add: absG_def e a)
  next
    case False
    then have g: "obj_get g k = Some a" using Cons.prems(1) by (simp add: e obj_get_def)
    then have "(k, a) \<in> set g" by (simp add: obj_get_def map_of_SomeD)
    then have "a' \<noteq> a" using Cons.prems(2) by (force simp: e)
    moreover have "distinct (map snd g)" using Cons.prems(2) by simp
    then have "absG (s\<lparr>arrays := (arrays s)(a \<mapsto> v)\<rparr>) g = obj_set (absG s g) k v"
      by (rule Cons.IH[OF g])
    ultimately show ?thesis using False by (simp add: absG_def e)
  qed
qed

lemma store_inv_write:
  assumes "store_inv s0 s g" "obj_get g k = Some a"
  shows "store_inv s0 (s\<lparr>arrays := (arrays s)(a \<mapsto> v)\<rparr>) g"
proof -
  have "(k, a) \<in> set g" using assms(2) by (simp add: obj_get_def map_of_SomeD)
  then have "fresh s0 \<le> a" using assms(1) by (auto simp: store_inv_def)
  then show ?thesis using assms(1) by (auto simp: store_inv_def)
qed

lemma store_inv_lookup:
  assumes "store_inv s0 s g" "obj_get g k = Some a"
  shows "\<exists>arr. arrays s a = Some arr"
proof -
  have "(k, a) \<in> set g" using assms(2) by (simp add: obj_get_def map_of_SomeD)
  then show ?thesis using assms(1) by (auto simp: store_inv_def)
qed

section \<open>The steps on the store follow the steps on the object\<close>

lemma groupPoint_sim:
  assumes inv: "store_inv s0 s g"
  shows "\<exists>g' s'. groupPoint_st s g p = Inr (g', s') \<and> store_inv s0 s' g' \<and>
                 groupPoint (absG s g) p = Inr (absG s' g')"
proof (cases "obj_get g (monthKey (dateObj p))")
  case None
  define key where "key = monthKey (dateObj p)"
  define a where "a = fresh s"
  define s1 where "s1 = s\<lparr>arrays := (arrays s)(a \<mapsto> []), fresh := Suc a\<rparr>"
  define s2 where "s2 = s1\<lparr>arrays := (arrays s1)(a \<mapsto> [p])\<rparr>"
  define g1 where "g1 = g @ [(key, a)]"
  have nk: "key \<notin> set (Object_keys g)" using None by (simp add: obj_get_None_iff key_def)
  have g1: "obj_set g key a = g1" using nk by (simp add: obj_set_absent g1_def)
  have get1: "obj_get g1 key = Some a" using obj_get_obj_set[of g key a key] by (simp add: g1)
  have st: "groupPoint_st s g p = Inr (g1, s2)"
    using None get1
    by (simp add: groupPoint_st_def Let_def newArray_def push_def g1 s1_def s2_def
        flip: key_def a_def)
  have old: "\<forall>(k, b)\<in>set g. b < a" using inv by (auto simp: store_inv_def a_def)
  then have na: "a \<notin> snd ` set g" by force
  have inv2: "store_inv s0 s2 g1"
    using inv na by (auto simp: store_inv_def s2_def s1_def g1_def a_def)
  have "\<forall>(k, b)\<in>set g. arrays s2 b = arrays s b" using old by (auto simp: s2_def s1_def)
  then have "absG s2 g = absG s g" by (rule absG_cong)
  then have ab: "absG s2 g1 = absG s g @ [(key, [p])]"
    by (simp add: g1_def absG_append) (simp add: absG_def s2_def)
  have "obj_get (absG s g) key = None" using None by (simp add: obj_get_absG key_def)
  then have "groupPoint (absG s g) p = Inr (obj_set (obj_set (absG s g) key []) key ([] @ [p]))"
    by (simp add: groupPoint_def Let_def obj_get_obj_set flip: key_def)
  also have "obj_set (obj_set (absG s g) key []) key ([] @ [p]) = absG s g @ [(key, [p])]"
    using nk by (simp only: obj_set_twice append_Nil) (simp add: obj_set_absent)
  finally show ?thesis using st inv2 ab by simp
next
  case (Some a)
  define key where "key = monthKey (dateObj p)"
  obtain arr where arr: "arrays s a = Some arr" using store_inv_lookup[OF inv Some] by blast
  define s2 where "s2 = s\<lparr>arrays := (arrays s)(a \<mapsto> arr @ [p])\<rparr>"
  have st: "groupPoint_st s g p = Inr (g, s2)"
    using Some arr by (simp add: groupPoint_st_def Let_def push_def s2_def)
  have inv2: "store_inv s0 s2 g" unfolding s2_def by (rule store_inv_write[OF inv Some])
  have d: "distinct (map snd g)" using inv by (simp add: store_inv_def)
  have ab: "absG s2 g = obj_set (absG s g) key (arr @ [p])"
    unfolding s2_def key_def by (rule absG_write[OF Some d])
  have "obj_get (absG s g) key = Some arr" using Some arr by (simp add: obj_get_absG key_def)
  then have "groupPoint (absG s g) p = Inr (obj_set (absG s g) key (arr @ [p]))"
    by (simp add: groupPoint_def Let_def flip: key_def)
  then show ?thesis using st inv2 ab by simp
qed

lemma store_inv_data:
  "store_inv s0 s g \<Longrightarrow> data < fresh s0 \<Longrightarrow> arrays s data = arrays s0 data"
  by (simp add: store_inv_def)

lemma forEach_sim:
  assumes "store_inv s0 s g" "arrays s0 data = Some xs" "data < fresh s0"
  shows "\<exists>g' s'. forEach_st s data k n g = Inr (g', s') \<and> store_inv s0 s' g' \<and>
                 forEach_group (absG s g) (take n (drop k xs)) = Inr (absG s' g')"
  using assms(1)
proof (induction n arbitrary: s g k)
  case 0
  then show ?case by simp
next
  case (Suc n)
  have rd: "arrays s data = Some xs" using store_inv_data[OF Suc.prems assms(3)] assms(2) by simp
  show ?case
  proof (cases "k < length xs")
    case False
    then have "elem_at xs k = None" "take (Suc n) (drop k xs) = []" "take n (drop (Suc k) xs) = []"
      by (simp_all add: elem_at_def)
    then show ?thesis using Suc.IH[OF Suc.prems, of "Suc k"] rd by simp
  next
    case True
    then have el: "elem_at xs k = Some (xs ! k)" by (simp add: elem_at_def)
    have tk: "take (Suc n) (drop k xs) = xs ! k # take n (drop (Suc k) xs)"
      using True by (simp add: Cons_nth_drop_Suc[symmetric])
    obtain g1 s1 where s1: "groupPoint_st s g (xs ! k) = Inr (g1, s1)" "store_inv s0 s1 g1"
      "groupPoint (absG s g) (xs ! k) = Inr (absG s1 g1)"
      using groupPoint_sim[OF Suc.prems] by blast
    from Suc.IH[OF s1(2), of "Suc k"] obtain g' s' where
      "forEach_st s1 data (Suc k) n g1 = Inr (g', s')" "store_inv s0 s' g'"
      "forEach_group (absG s1 g1) (take n (drop (Suc k) xs)) = Inr (absG s' g')"
      by blast
    then show ?thesis using rd el s1 tk by simp
  qed
qed

lemma sortGroup_sim:
  assumes inv: "store_inv s0 s g"
  shows "case sortGroup (absG s g) K of
           Inl e \<Rightarrow> sortGroup_st s g K = Inl e
         | Inr (G', arr) \<Rightarrow>
             \<exists>s'. sortGroup_st s g K = Inr (s', arr) \<and> store_inv s0 s' g \<and> absG s' g = G'"
proof (cases K)
  case None
  then show ?thesis by (simp add: sortGroup_def sortGroup_st_def)
next
  case (Some key)
  show ?thesis
  proof (cases "obj_get g key")
    case None
    then show ?thesis using Some by (simp add: sortGroup_def sortGroup_st_def obj_get_absG)
  next
    case a: (Some a)
    obtain arr where arr: "arrays s a = Some arr" using store_inv_lookup[OF inv a] by blast
    define s' where "s' = s\<lparr>arrays := (arrays s)(a \<mapsto> Array_sort byTime arr)\<rparr>"
    have d: "distinct (map snd g)" using inv by (simp add: store_inv_def)
    have "store_inv s0 s' g" unfolding s'_def by (rule store_inv_write[OF inv a])
    moreover have "absG s' g = obj_set (absG s g) key (Array_sort byTime arr)"
      unfolding s'_def by (rule absG_write[OF a d])
    moreover have "sortGroup_st s g K = Inr (s', Array_sort byTime arr)"
      using Some a arr by (simp add: sortGroup_st_def Let_def s'_def)
    moreover have "sortGroup (absG s g) K =
        Inr (obj_set (absG s g) key (Array_sort byTime arr), Array_sort byTime arr)"
      using Some a arr by (simp add: sortGroup_def Let_def obj_get_absG)
    ultimately show ?thesis by simp
  qed
qed

lemma monthRecord_sim:
  assumes inv: "store_inv s0 s g"
  shows "case monthRecord ks (absG s g) k i of
           Inl e \<Rightarrow> monthRecord_st ks s g k i = Inl e
         | Inr (r, G') \<Rightarrow>
             \<exists>s'. monthRecord_st ks s g k i = Inr (r, s') \<and> store_inv s0 s' g \<and> absG s' g = G'"
proof (cases "sortGroup (absG s g) (Some k)")
  case (Inl e)
  then have "sortGroup_st s g (Some k) = Inl e" using sortGroup_sim[OF inv, of "Some k"] by simp
  then show ?thesis using Inl by (simp add: monthRecord_def monthRecord_st_def)
next
  case (Inr x)
  obtain G1 points where x: "x = (G1, points)" by (cases x)
  obtain s1 where s1: "sortGroup_st s g (Some k) = Inr (s1, points)" "store_inv s0 s1 g"
    "absG s1 g = G1"
    using sortGroup_sim[OF inv, of "Some k"] Inr x by auto
  show ?thesis
  proof (cases "lastValue points")
    case (Inl e)
    then show ?thesis using Inr x s1 by (simp add: monthRecord_def monthRecord_st_def)
  next
    case cur: (Inr cur)
    show ?thesis
    proof (cases "i = 0")
      case True
      then show ?thesis using Inr x s1 cur
        by (cases "firstValue points") (simp_all add: monthRecord_def monthRecord_st_def)
    next
      case False
      define K where "K = elem_at ks (i - 1)"
      show ?thesis
      proof (cases "sortGroup G1 K")
        case (Inl e)
        then have "sortGroup_st s1 g K = Inl e"
          using sortGroup_sim[OF s1(2), of K] s1(3) by simp
        then show ?thesis using Inr x s1 cur False Inl
          by (simp add: monthRecord_def monthRecord_st_def flip: K_def del: One_nat_def)
      next
        case y: (Inr y)
        obtain G2 prev where yy: "y = (G2, prev)" by (cases y)
        obtain s2 where s2: "sortGroup_st s1 g K = Inr (s2, prev)" "store_inv s0 s2 g"
          "absG s2 g = G2"
          using sortGroup_sim[OF s1(2), of K] s1(3) y yy by auto
        show ?thesis using Inr x s1 cur False y yy s2
          by (cases "lastValue prev")
            (simp_all add: monthRecord_def monthRecord_st_def flip: K_def del: One_nat_def)
      qed
    qed
  qed
qed

lemma mapRecords_sim:
  assumes "store_inv s0 s g"
  shows "case mapRecords ks (absG s g) i rest of
           Inl e \<Rightarrow> mapRecords_st ks s g i rest = Inl e
         | Inr rs \<Rightarrow> \<exists>s'. mapRecords_st ks s g i rest = Inr (rs, s') \<and> store_inv s0 s' g"
  using assms
proof (induction rest arbitrary: s i)
  case Nil
  then show ?case by simp
next
  case (Cons k rest)
  show ?case
  proof (cases "monthRecord ks (absG s g) k i")
    case (Inl e)
    then show ?thesis using monthRecord_sim[OF Cons.prems, of ks k i] by simp
  next
    case (Inr x)
    obtain r G' where x: "x = (r, G')" by (cases x)
    obtain s1 where s1: "monthRecord_st ks s g k i = Inr (r, s1)" "store_inv s0 s1 g"
      "absG s1 g = G'"
      using monthRecord_sim[OF Cons.prems, of ks k i] Inr x by auto
    show ?thesis
    proof (cases "mapRecords ks G' (Suc i) rest")
      case (Inl e)
      then show ?thesis using Cons.IH[OF s1(2), of "Suc i"] Inr x s1 by simp
    next
      case rs: (Inr rs)
      then show ?thesis using Cons.IH[OF s1(2), of "Suc i"] Inr x s1 by auto
    qed
  qed
qed

section \<open>Scenario A\<close>

lemma scenario_A_points:
  "parseCSV (js ''Date,Value\<newline>2024/01/01,1000\<newline>2024/01/31,1100\<newline>2024/02/29,1210\<newline>'') =
     Inr [\<lparr>date = js ''2024/01/01'', dateObj = Some 1704067200000, val = Fin 1000, index = None\<rparr>,
          \<lparr>date = js ''2024/01/31'', dateObj = Some 1706659200000, val = Fin 1100, index = None\<rparr>,
          \<lparr>date = js ''2024/02/29'', dateObj = Some 1709164800000, val = Fin 1210, index = None\<rparr>]"
  by (simp add: js_defs)

lemma scenario_A_records:
  "calculateMonthlyGrowth
     [\<lparr>date = js ''2024/01/01'', dateObj = Some 1704067200000, val = Fin 1000, index = None\<rparr>,
      \<lparr>date = js ''2024/01/31'', dateObj = Some 1706659200000, val = Fin 1100, index = None\<rparr>,
      \<lparr>date = js ''2024/02/29'', dateObj = Some 1709164800000, val = Fin 1210, index = None\<rparr>] =
     Inr [\<lparr>month = js ''2024-01'', startValue = Fin 1000, endValue = Fin 1100,
           growth = Fin 100, growthPercent = Fin 10\<rparr>,
          \<lparr>month = js ''2024-02'', startValue = Fin 1100, endValue = Fin 1210,
           growth = Fin 110, growthPercent = Fin 10\<rparr>]"
proof -
  have "calculateMonthlyGrowth
     [\<lparr>date = js ''2024/01/01'', dateObj = Some 1704067200000, val = Fin 1000, index = None\<rparr>,
      \<lparr>date = js ''2024/01/31'', dateObj = Some 1706659200000, val = Fin 1100, index = None\<rparr>,
      \<lparr>date = js ''2024/02/29'', dateObj = Some 1709164800000, val = Fin 1210, index = None\<rparr>] =
     Inr [growthRecord (js ''2024-01'') (Fin 1000) (Fin 1100),
          growthRecord (js ''2024-02'') (Fin 1100) (Fin 1210)]"
    by (simp add: js_defs del: growthRecord_def)
  moreover have "growthRecord (js ''2024-01'') (Fin 1000) (Fin 1100) =
      \<lparr>month = js ''2024-01'', startValue = Fin 1000, endValue = Fin 1100,
           growth = Fin 100, growthPercent = Fin 10\<rparr>"
    by (simp add: growthRecord_def Let_def num_sub_def num_neg_def fl_numeral percent_ten
        del: num_div.simps num_mul.simps)
  moreover have "growthRecord (js ''2024-02'') (Fin 1100) (Fin 1210) =
      \<lparr>month = js ''2024-02'', startValue = Fin 1100, endValue = Fin 1210,
           growth = Fin 110, growthPercent = Fin 10\<rparr>"
    by (simp add: growthRecord_def Let_def num_sub_def num_neg_def fl_numeral percent_ten
        del: num_div.simps num_mul.simps)
  ultimately show ?thesis by simp
qed

text \<open>
  C1. On the text of scenario A, parseCSV returns the three points in order (each with
  the time value of its date at midnight and no index), and calculateMonthlyGrowth on
  them returns the records of January and February 2024, each with a growth of 10 percent.
\<close>

theorem scenario_A:
  "parseCSV (js ''Date,Value\<newline>2024/01/01,1000\<newline>2024/01/31,1100\<newline>2024/02/29,1210\<newline>'') =
     Inr [\<lparr>date = js ''2024/01/01'', dateObj = Some 1704067200000, val = Fin 1000, index = None\<rparr>,
          \<lparr>date = js ''2024/01/31'', dateObj = Some 1706659200000, val = Fin 1100, index = None\<rparr>,
          \<lparr>date = js ''2024/02/29'', dateObj = Some 1709164800000, val = Fin 1210, index = None\<rparr>] \<and>
   calculateMonthlyGrowth
     [\<lparr>date = js ''2024/01/01'', dateObj = Some 1704067200000, val = Fin 1000, index = None\<rparr>,
      \<lparr>date = js ''2024/01/31'', dateObj = Some 1706659200000, val = Fin 1100, index = None\<rparr>,
      \<lparr>date = js ''2024/02/29'', dateObj = Some 1709164800000, val = Fin 1210, index = None\<rparr>] =
     Inr [\<lparr>month = js ''2024-01'', startValue = Fin 1000, endValue = Fin 1100,
           growth = Fin 100, growthPercent = Fin 10\<rparr>,
          \<lparr>month = js ''2024-02'', startValue = Fin 1100, endValue = Fin 1210,
           growth = Fin 110, growthPercent = Fin 10\<rparr>]"
  using scenario_A_points scenario_A_records by (rule conjI)

section \<open>Chain continuity\<close>

text \<open>
  C2. For every input point sequence, calculateMonthlyGrowth returns, and every record of
  the output but the first has as startValue the endValue of the record emitted just
  before it, whatever month that record is for. Equality is that of the values: a NaN is
  the same value as itself.
\<close>

theorem chain_continuity:
  "\<exists>out. calculateMonthlyGrowth data = Inr out \<and>
         (\<forall>j. 0 < j \<and> j < length out \<longrightarrow> startValue (out ! j) = endValue (out ! (j - 1)))"
proof -
  obtain g where g:
    "calculateMonthlyGrowth data =
       Inr (map (recordAt g (sort (Object_keys g))) [0..<length (Object_keys g)])"
    using calculateMonthlyGrowth_Inr[of data] by blast
  have "startValue (recordAt g ks j) = endValue (recordAt g ks (j - 1))" if "0 < j" for ks j
    using that by (simp add: recordAt_def growthRecord_def Let_def)
  then show ?thesis using g by auto
qed

text \<open>A January followed by a March: the March record starts at the January close.\<close>

theorem chain_continuity_witness:
  "\<exists>r1 r2.
     calculateMonthlyGrowth
       [\<lparr>date = js ''2024/01/31'', dateObj = Some 1706659200000, val = Fin 1100, index = None\<rparr>,
        \<lparr>date = js ''2024/03/15'', dateObj = Some 1710460800000, val = Fin 1210, index = None\<rparr>]
       = Inr [r1, r2] \<and>
     month r1 = js ''2024-01'' \<and> month r2 = js ''2024-03'' \<and>
     (0::nat) < 1 \<and> 1 < length [r1, r2] \<and>
     startValue ([r1, r2] ! 1) = endValue ([r1, r2] ! (1 - 1))"
proof -
  let ?data =
    "[\<lparr>date = js ''2024/01/31'', dateObj = Some 1706659200000, val = Fin 1100, index = None\<rparr>,
      \<lparr>date = js ''2024/03/15'', dateObj = Some 1710460800000, val = Fin 1210, index = None\<rparr>]"
  have e: "calculateMonthlyGrowth ?data =
        Inr [growthRecord (js ''2024-01'') (Fin 1100) (Fin 1100),
             growthRecord (js ''2024-03'') (Fin 1100) (Fin 1210)]"
    by (simp add: js_defs del: growthRecord_def)
  from chain_continuity[of ?data] obtain out where out:
    "calculateMonthlyGrowth ?data = Inr out"
    "\<forall>j. 0 < j \<and> j < length out \<longrightarrow> startValue (out ! j) = endValue (out ! (j - 1))"
    by blast
  from out(1) e have o: "out = [growthRecord (js ''2024-01'') (Fin 1100) (Fin 1100),
             growthRecord (js ''2024-03'') (Fin 1100) (Fin 1210)]" by simp
  from out(2) have "0 < (1::nat) \<and> 1 < length out \<longrightarrow> startValue (out ! 1) = endValue (out ! (1 - 1))"
    by blast
  then show ?thesis using e o by (simp add: growthRecord_def Let_def)
qed

section \<open>Aggregation coverage\<close>

lemma month_recordAt [simp]: "month (recordAt g ks j) = ks ! j"
  by (simp add: recordAt_def growthRecord_def Let_def)

text \<open>
  C3. For every input point sequence, calculateMonthlyGrowth returns one record for each
  month key of an input point and no other record; no key appears twice; two points have
  the same key exactly when getFullYear and getMonth agree on their dates (an invalid
  date has NaN for both, and the key NaN-NaN); so the number of records is the number of
  distinct (year, month) pairs in the input.
\<close>

theorem aggregation_coverage:
  "\<exists>out. calculateMonthlyGrowth data = Inr out \<and>
         set (map month out) = (\<lambda>p. monthKey (dateObj p)) ` set data \<and>
         distinct (map month out) \<and>
         length out = card (yearMonth ` set data) \<and>
         (\<forall>p q. monthKey (dateObj p) = monthKey (dateObj q) \<longleftrightarrow> yearMonth p = yearMonth q)"
proof -
  obtain g where g: "groups_ok g"
    "set (Object_keys g) = (\<lambda>p. monthKey (dateObj p)) ` set data"
    "calculateMonthlyGrowth data =
       Inr (map (recordAt g (sort (Object_keys g))) [0..<length (Object_keys g)])"
    using calculateMonthlyGrowth_Inr[of data] by blast
  define ks where "ks = sort (Object_keys g)"
  define out where "out = map (recordAt g ks) [0..<length ks]"
  have res: "calculateMonthlyGrowth data = Inr out" using g(3) by (simp add: out_def ks_def)
  have "map month out = map (\<lambda>j. ks ! j) [0..<length ks]" by (simp add: out_def)
  then have months: "map month out = ks" by (simp add: map_nth)
  have d: "distinct ks" "set ks = set (Object_keys g)" using g(1) by (auto simp: ks_def groups_ok_def)
  have ker: "monthKey (dateObj p) = monthKey (dateObj q) \<longleftrightarrow> yearMonth p = yearMonth q" for p q
    by (simp add: monthKey_eq_iff yearMonth_def)
  have "length out = length ks" by (simp add: out_def)
  also have "\<dots> = card (set ks)" using d(1) by (simp add: distinct_card)
  also have "\<dots> = card ((\<lambda>p. monthKey (dateObj p)) ` set data)" using d(2) g(2) by simp
  also have "\<dots> = card (yearMonth ` set data)"
    by (rule card_image_kernel) (simp_all add: ker)
  finally have "length out = card (yearMonth ` set data)" .
  then show ?thesis using res months d g(2) ker by auto
qed

text \<open>Two points in January and one in March: a record for each of the two months.\<close>

theorem aggregation_coverage_witness:
  "\<exists>out.
     calculateMonthlyGrowth
       [\<lparr>date = js ''2024/01/01'', dateObj = Some 1704067200000, val = Fin 1000, index = None\<rparr>,
        \<lparr>date = js ''2024/01/31'', dateObj = Some 1706659200000, val = Fin 1100, index = None\<rparr>,
        \<lparr>date = js ''2024/03/15'', dateObj = Some 1710460800000, val = Fin 1210, index = None\<rparr>]
       = Inr out \<and>
     map month out = [js ''2024-01'', js ''2024-03''] \<and>
     length out = 2 \<and>
     card (yearMonth ` set
       [\<lparr>date = js ''2024/01/01'', dateObj = Some 1704067200000, val = Fin 1000, index = None\<rparr>,
        \<lparr>date = js ''2024/01/31'', dateObj = Some 1706659200000, val = Fin 1100, index = None\<rparr>,
        \<lparr>date = js ''2024/03/15'', dateObj = Some 1710460800000, val = Fin 1210, index = None\<rparr>]) = 2"
proof -
  let ?data =
    "[\<lparr>date = js ''2024/01/01'', dateObj = Some 1704067200000, val = Fin 1000, index = None\<rparr>,
      \<lparr>date = js ''2024/01/31'', dateObj = Some 1706659200000, val = Fin 1100, index = None\<rparr>,
      \<lparr>date = js ''2024/03/15'', dateObj = Some 1710460800000, val = Fin 1210, index = None\<rparr>]"
  have e: "calculateMonthlyGrowth ?data =
        Inr [growthRecord (js ''2024-01'') (Fin 1000) (Fin 1100),
             growthRecord (js ''2024-03'') (Fin 1100) (Fin 1210)]"
    by (simp add: js_defs del: growthRecord_def)
  from aggregation_coverage[of ?data] obtain out where out:
    "calculateMonthlyGrowth ?data = Inr out" "length out = card (yearMonth ` set ?data)"
    by blast
  from out(1) e have o: "out = [growthRecord (js ''2024-01'') (Fin 1000) (Fin 1100),
             growthRecord (js ''2024-03'') (Fin 1100) (Fin 1210)]" by simp
  have "map month out = [js ''2024-01'', js ''2024-03'']" "length out = 2"
    by (simp_all add: o growthRecord_def Let_def)
  then show ?thesis using out by metis
qed


section \<open>Percent safety\<close>

text \<open>
  C4, as the code has it. For every input point sequence, calculateMonthlyGrowth returns,
  and in every record growthPercent is 0 when startValue is 0 and otherwise
  growth / startValue * 100 in double arithmetic; it is a finite number whenever
  startValue and endValue are safe integers.
\<close>

theorem percent_safety:
  "\<exists>out. calculateMonthlyGrowth data = Inr out \<and>
         (\<forall>r\<in>set out.
            growthPercent r =
              (if startValue r = Fin 0 then Fin 0
               else num_mul (num_div (growth r) (startValue r)) (Fin 100)) \<and>
            (isSafeInteger (startValue r) \<and> isSafeInteger (endValue r)
               \<longrightarrow> isFinite (growthPercent r)))"
proof -
  obtain g where g:
    "calculateMonthlyGrowth data =
       Inr (map (recordAt g (sort (Object_keys g))) [0..<length (Object_keys g)])"
    using calculateMonthlyGrowth_Inr[of data] by blast
  have a: "growthPercent (growthRecord k s t) =
          (if startValue (growthRecord k s t) = Fin 0 then Fin 0
           else num_mul (num_div (growth (growthRecord k s t)) (startValue (growthRecord k s t)))
                  (Fin 100))" for k s t
    by (simp add: growthRecord_def Let_def)
  have b: "isSafeInteger (startValue (growthRecord k s t)) \<and>
           isSafeInteger (endValue (growthRecord k s t))
           \<longrightarrow> isFinite (growthPercent (growthRecord k s t))" for k s t
    using growthPercent_finite[of s t k] by (simp add: growthRecord_def Let_def)
  show ?thesis using g a b by (auto simp: recordAt_def)
qed

text \<open>
  The claim as stated fails: a value that parses to NaN gives a NaN percentage.
\<close>

theorem percent_safety_counterexample:
  "parseCSV (js ''Date,Value\<newline>2024/01/01,abc\<newline>'') =
     Inr [\<lparr>date = js ''2024/01/01'', dateObj = Some 1704067200000, val = NaN, index = None\<rparr>] \<and>
   calculateMonthlyGrowth
     [\<lparr>date = js ''2024/01/01'', dateObj = Some 1704067200000, val = NaN, index = None\<rparr>] =
     Inr [\<lparr>month = js ''2024-01'', startValue = NaN, endValue = NaN, growth = NaN,
           growthPercent = NaN\<rparr>] \<and>
   \<not> isFinite (growthPercent \<lparr>month = js ''2024-01'', startValue = NaN, endValue = NaN,
                  growth = NaN, growthPercent = NaN\<rparr>)"
  by (simp add: js_defs isFinite_def)


text \<open>On the points of scenario A both percentages are the finite number 10.\<close>

theorem percent_safety_witness:
  "\<exists>out.
     calculateMonthlyGrowth
       [\<lparr>date = js ''2024/01/01'', dateObj = Some 1704067200000, val = Fin 1000, index = None\<rparr>,
        \<lparr>date = js ''2024/01/31'', dateObj = Some 1706659200000, val = Fin 1100, index = None\<rparr>,
        \<lparr>date = js ''2024/02/29'', dateObj = Some 1709164800000, val = Fin 1210, index = None\<rparr>]
       = Inr out \<and>
     map growthPercent out = [Fin 10, Fin 10] \<and>
     (\<forall>r\<in>set out. isSafeInteger (startValue r) \<and> isSafeInteger (endValue r) \<and>
                   isFinite (growthPercent r))"
proof -
  let ?data =
    "[\<lparr>date = js ''2024/01/01'', dateObj = Some 1704067200000, val = Fin 1000, index = None\<rparr>,
      \<lparr>date = js ''2024/01/31'', dateObj = Some 1706659200000, val = Fin 1100, index = None\<rparr>,
      \<lparr>date = js ''2024/02/29'', dateObj = Some 1709164800000, val = Fin 1210, index = None\<rparr>]"
  let ?out = "[\<lparr>month = js ''2024-01'', startValue = Fin 1000, endValue = Fin 1100,
           growth = Fin 100, growthPercent = Fin 10\<rparr>,
      \<lparr>month = js ''2024-02'', startValue = Fin 1100, endValue = Fin 1210,
           growth = Fin 110, growthPercent = Fin 10\<rparr>]"
  from percent_safety[of ?data] obtain out where out:
    "calculateMonthlyGrowth ?data = Inr out"
    "\<forall>r\<in>set out. isSafeInteger (startValue r) \<and> isSafeInteger (endValue r)
         \<longrightarrow> isFinite (growthPercent r)"
    by blast
  have o: "out = ?out"
    using out(1) unfolding scenario_A_records by simp
  have safe: "\<forall>r\<in>set ?out. isSafeInteger (startValue r) \<and> isSafeInteger (endValue r)"
    by (simp add: isSafeInteger_def)
  have fin: "\<forall>r\<in>set ?out. isFinite (growthPercent r)"
    using out(2) safe unfolding o by blast
  have comb: "\<forall>r\<in>S. P r \<Longrightarrow> \<forall>r\<in>S. Q r \<Longrightarrow> \<forall>r\<in>S. P r \<and> Q r"
    for S :: "MonthlyGrowth set" and P Q
    by blast
  have all: "\<forall>r\<in>set ?out. (isSafeInteger (startValue r) \<and> isSafeInteger (endValue r)) \<and>
                   isFinite (growthPercent r)"
    by (rule comb[OF safe fin])
  have e: "calculateMonthlyGrowth ?data = Inr ?out" by (rule scenario_A_records)
  have m: "map growthPercent ?out = [Fin 10, Fin 10]" by simp
  show ?thesis
    by (rule exI[of _ ?out]) (use e m all in \<open>simp only: conj_assoc simp_thms\<close>)
qed

section \<open>The sort invariant\<close>

text \<open>
  C5, as the code has it. When every point parseCSV returns has a valid calendar date,
  the points are in ascending order of calendar date, and the points of one calendar
  date keep the order of their lines.
\<close>

theorem parseCSV_sorted:
  assumes "parseCSV text = Inr points" and "\<forall>p\<in>set points. dateObj p \<noteq> None"
  shows "sorted_wrt (\<lambda>a b. date_le (dateObj a) (dateObj b)) points \<and>
         (\<forall>d. filter (\<lambda>p. dateObj p = d) points =
              filter (\<lambda>p. dateObj p = d) (notNull (map lineResult (dataLines text))))"
proof -
  define rows where "rows = notNull (map lineResult (dataLines text))"
  have p: "points = Array_sort byTime rows" using assms(1) by (simp add: parseCSV_Inr rows_def)
  then have "\<forall>p\<in>set rows. dateObj p \<noteq> None" using assms(2) by simp
  then have "sorted_wrt (\<lambda>a b. date_le (dateObj a) (dateObj b)) points"
    unfolding p by (rule sorted_Array_sort)
  then show ?thesis by (simp add: p filter_Array_sort flip: rows_def)
qed

text \<open>
  Two rows of one day given after a later row: the later row moves to the end and the two
  rows of the day keep their order.
\<close>

theorem parseCSV_sorted_witness:
  "parseCSV (js ''Date,Value\<newline>2024/01/31,1100\<newline>2024/01/01,1000\<newline>2024/01/01,1001\<newline>'') =
     Inr [\<lparr>date = js ''2024/01/01'', dateObj = Some 1704067200000, val = Fin 1000, index = None\<rparr>,
          \<lparr>date = js ''2024/01/01'', dateObj = Some 1704067200000, val = Fin 1001, index = None\<rparr>,
          \<lparr>date = js ''2024/01/31'', dateObj = Some 1706659200000, val = Fin 1100, index = None\<rparr>] \<and>
   sorted_wrt (\<lambda>a b. date_le (dateObj a) (dateObj b))
     [\<lparr>date = js ''2024/01/01'', dateObj = Some 1704067200000, val = Fin 1000, index = None\<rparr>,
      \<lparr>date = js ''2024/01/01'', dateObj = Some 1704067200000, val = Fin 1001, index = None\<rparr>,
      \<lparr>date = js ''2024/01/31'', dateObj = Some 1706659200000, val = Fin 1100, index = None\<rparr>]"
proof -
  let ?text = "js ''Date,Value\<newline>2024/01/31,1100\<newline>2024/01/01,1000\<newline>2024/01/01,1001\<newline>''"
  let ?points =
    "[\<lparr>date = js ''2024/01/01'', dateObj = Some 1704067200000, val = Fin 1000, index = None\<rparr>,
      \<lparr>date = js ''2024/01/01'', dateObj = Some 1704067200000, val = Fin 1001, index = None\<rparr>,
      \<lparr>date = js ''2024/01/31'', dateObj = Some 1706659200000, val = Fin 1100, index = None\<rparr>]"
  have e: "parseCSV ?text = Inr ?points" by (simp add: js_defs)
  have v: "\<forall>p\<in>set ?points. dateObj p \<noteq> None" by simp
  from parseCSV_sorted[OF e v] have "sorted_wrt (\<lambda>a b. date_le (dateObj a) (dateObj b)) ?points"
    by (rule conjunct1)
  with e show ?thesis by (rule conjI)
qed

text \<open>
  The claim as stated fails on a row whose date token is not a date: its calendar date is
  invalid, the comparison function returns NaN against it, and the row stays where it is.
\<close>

theorem parseCSV_sorted_counterexample:
  "parseCSV (js ''Date,Value\<newline>Total,2100\<newline>2024/01/01,1000\<newline>'') =
     Inr [\<lparr>date = js ''Total'', dateObj = None, val = Fin 2100, index = None\<rparr>,
          \<lparr>date = js ''2024/01/01'', dateObj = Some 1704067200000, val = Fin 1000, index = None\<rparr>] \<and>
   \<not> date_le (dateObj \<lparr>date = js ''Total'', dateObj = None, val = Fin 2100, index = None\<rparr>)
       (dateObj \<lparr>date = js ''2024/01/01'', dateObj = Some 1704067200000, val = Fin 1000,
                 index = None\<rparr>)"
  by (simp add: js_defs date_le_def)

section \<open>The order of the records\<close>

text \<open>The records come out in strictly ascending order of their keys, as strings.\<close>

lemma months_ascending:
  "calculateMonthlyGrowth data = Inr out \<Longrightarrow> sorted_wrt (<) (map month out)"
proof -
  assume a: "calculateMonthlyGrowth data = Inr out"
  obtain g where g: "groups_ok g"
    "calculateMonthlyGrowth data =
       Inr (map (recordAt g (sort (Object_keys g))) [0..<length (Object_keys g)])"
    using calculateMonthlyGrowth_Inr[of data] by blast
  define ks where "ks = sort (Object_keys g)"
  have "map month out = map (\<lambda>j. ks ! j) [0..<length ks]" using a g(2) by (auto simp: ks_def)
  then have "map month out = ks" by (simp add: map_nth)
  moreover have "sorted ks" "distinct ks" using g(1) by (auto simp: ks_def groups_ok_def)
  ultimately show ?thesis by (simp add: strict_sorted_iff)
qed

lemma fl_minus_half: "fl (- (1 / 2)) = Fin (- (1 / 2))"
  by (rule fl_exact[where m = "- 1" and e' = "- 1"]) simp_all

text \<open>
  C6 at a text whose years have three and four digits. The last day of the year 999 and
  the first day of the year 1000 are parsed in that order, but the key 1000-01 is below
  the key 999-12 as a string: the record of January 1000 is emitted first, and the record
  of December 999 takes its start value from it.
\<close>

theorem month_order_at_year_999:
  "parseCSV (js ''Date,Value\<newline>0999/12/31,100\<newline>1000/01/01,200\<newline>'') =
     Inr [\<lparr>date = js ''0999/12/31'', dateObj = Some (- 30610310400000), val = Fin 100,
           index = None\<rparr>,
          \<lparr>date = js ''1000/01/01'', dateObj = Some (- 30610224000000), val = Fin 200,
           index = None\<rparr>] \<and>
   calculateMonthlyGrowth
     [\<lparr>date = js ''0999/12/31'', dateObj = Some (- 30610310400000), val = Fin 100,
       index = None\<rparr>,
      \<lparr>date = js ''1000/01/01'', dateObj = Some (- 30610224000000), val = Fin 200,
       index = None\<rparr>] =
     Inr [\<lparr>month = js ''1000-01'', startValue = Fin 200, endValue = Fin 200,
           growth = Fin 0, growthPercent = Fin 0\<rparr>,
          \<lparr>month = js ''999-12'', startValue = Fin 200, endValue = Fin 100,
           growth = Fin (- 100), growthPercent = Fin (- 50)\<rparr>]"
proof
  show "parseCSV (js ''Date,Value\<newline>0999/12/31,100\<newline>1000/01/01,200\<newline>'') =
     Inr [\<lparr>date = js ''0999/12/31'', dateObj = Some (- 30610310400000), val = Fin 100,
           index = None\<rparr>,
          \<lparr>date = js ''1000/01/01'', dateObj = Some (- 30610224000000), val = Fin 200,
           index = None\<rparr>]"
    by (simp add: js_defs)
  have "calculateMonthlyGrowth
     [\<lparr>date = js ''0999/12/31'', dateObj = Some (- 30610310400000), val = Fin 100,
       index = None\<rparr>,
      \<lparr>date = js ''1000/01/01'', dateObj = Some (- 30610224000000), val = Fin 200,
       index = None\<rparr>] =
     Inr [growthRecord (js ''1000-01'') (Fin 200) (Fin 200),
          growthRecord (js ''999-12'') (Fin 200) (Fin 100)]"
    by (simp add: js_defs del: growthRecord_def)
  moreover have "growthRecord (js ''1000-01'') (Fin 200) (Fin 200) =
      \<lparr>month = js ''1000-01'', startValue = Fin 200, endValue = Fin 200,
           growth = Fin 0, growthPercent = Fin 0\<rparr>"
    by (simp add: growthRecord_def Let_def num_sub_def num_neg_def)
  moreover have "growthRecord (js ''999-12'') (Fin 200) (Fin 100) =
      \<lparr>month = js ''999-12'', startValue = Fin 200, endValue = Fin 100,
           growth = Fin (- 100), growthPercent = Fin (- 50)\<rparr>"
    by (simp add: growthRecord_def Let_def num_sub_def num_neg_def fl_neg_numeral fl_minus_half)
  ultimately show "calculateMonthlyGrowth
     [\<lparr>date = js ''0999/12/31'', dateObj = Some (- 30610310400000), val = Fin 100,
       index = None\<rparr>,
      \<lparr>date = js ''1000/01/01'', dateObj = Some (- 30610224000000), val = Fin 200,
       index = None\<rparr>] =
     Inr [\<lparr>month = js ''1000-01'', startValue = Fin 200, endValue = Fin 200,
           growth = Fin 0, growthPercent = Fin 0\<rparr>,
          \<lparr>month = js ''999-12'', startValue = Fin 200, endValue = Fin 100,
           growth = Fin (- 100), growthPercent = Fin (- 50)\<rparr>]"
    by simp
qed

section \<open>parseCSV never raises\<close>

text \<open>
  C7. parseCSV never raises. A line returns a point or null, null exactly when it has
  fewer than two tokens; the result of parseCSV is the sort of the points of the lines
  that have at least two tokens, so a dropped line does not end the processing of the
  others. A text whose trimmed form has no line feed (the empty text, a header alone)
  gives the empty sequence, and calculateMonthlyGrowth maps the empty sequence to the
  empty sequence.
\<close>

theorem parseCSV_never_raises:
  "(\<exists>r. parseLine line = Inr r \<and> (r = None \<longleftrightarrow> length (matchAll line) < 2)) \<and>
   (\<exists>points. parseCSV text = Inr points \<and>
      points = Array_sort byTime (notNull (map lineResult (dataLines text))) \<and>
      length points = length (filter (\<lambda>l. 2 \<le> length (matchAll l)) (dataLines text))) \<and>
   (0x0A \<notin> set (trim text) \<longrightarrow> parseCSV text = Inr []) \<and>
   calculateMonthlyGrowth [] = Inr []"
proof (intro conjI)
  show "\<exists>r. parseLine line = Inr r \<and> (r = None \<longleftrightarrow> length (matchAll line) < 2)"
    using parseLine_Inr lineResult_None_iff by blast
  show "\<exists>points. parseCSV text = Inr points \<and>
      points = Array_sort byTime (notNull (map lineResult (dataLines text))) \<and>
      length points = length (filter (\<lambda>l. 2 \<le> length (matchAll l)) (dataLines text))"
    by (simp add: parseCSV_Inr length_points)
  show "0x0A \<notin> set (trim text) \<longrightarrow> parseCSV text = Inr []"
    by (simp add: parseCSV_Inr dataLines_def split_str_single)
  show "calculateMonthlyGrowth [] = Inr []" by (rule calculateMonthlyGrowth_Nil)
qed

text \<open>
  A header alone gives no point; a line of one token between two rows is dropped and the
  rows around it are kept.
\<close>

theorem parseCSV_never_raises_witness:
  "0x0A \<notin> set (trim (js ''Date,Value\<newline>'')) \<and>
   parseCSV (js ''Date,Value\<newline>'') = Inr [] \<and>
   length (matchAll (js ''garbage'')) < 2 \<and>
   parseLine (js ''garbage'') = Inr None \<and>
   parseCSV (js ''Date,Value\<newline>2024/01/01,1000\<newline>garbage\<newline>2024/01/31,1100\<newline>'') =
     Inr [\<lparr>date = js ''2024/01/01'', dateObj = Some 1704067200000, val = Fin 1000, index = None\<rparr>,
          \<lparr>date = js ''2024/01/31'', dateObj = Some 1706659200000, val = Fin 1100, index = None\<rparr>]"
proof -
  have a: "0x0A \<notin> set (trim (js ''Date,Value\<newline>''))" by (simp add: js_defs)
  have b: "length (matchAll (js ''garbage'')) < 2" by (simp add: js_defs)
  note t = parseCSV_never_raises[of "js ''garbage''" "js ''Date,Value\<newline>''"]
  from t obtain r where r: "parseLine (js ''garbage'') = Inr r"
    "r = None \<longleftrightarrow> length (matchAll (js ''garbage'')) < 2"
    by blast
  from r b have c: "parseLine (js ''garbage'') = Inr None" by simp
  from t have "0x0A \<notin> set (trim (js ''Date,Value\<newline>'')) \<longrightarrow>
      parseCSV (js ''Date,Value\<newline>'') = Inr []"
    by blast
  with a have d: "parseCSV (js ''Date,Value\<newline>'') = Inr []" by blast
  have "parseCSV (js ''Date,Value\<newline>2024/01/01,1000\<newline>garbage\<newline>2024/01/31,1100\<newline>'') =
     Inr [\<lparr>date = js ''2024/01/01'', dateObj = Some 1704067200000, val = Fin 1000, index = None\<rparr>,
          \<lparr>date = js ''2024/01/31'', dateObj = Some 1706659200000, val = Fin 1100, index = None\<rparr>]"
    by (simp add: js_defs)
  then show ?thesis using a b c d by (simp only: simp_thms)
qed

section \<open>The value field\<close>

lemma isDigit_not_space: "isDigit c \<Longrightarrow> \<not> isWhiteSpace c"
  by (auto simp: isDigit_def isWhiteSpace_def isLineTerminator_def)

lemma takeWhile_digits_point:
  "list_all isDigit ds \<Longrightarrow> takeWhile isDigit (ds @ 0x2E # fs) = ds"
  by (induction ds) (auto simp: isDigit_def)

text \<open>
  parseInt on white space, an optional sign, a run of digits, a decimal point and anything
  more: NaN when there is no digit, and otherwise the integer of the digits, with the
  sign, rounded to a double.
\<close>

lemma parseInt_fraction:
  assumes ws: "list_all isWhiteSpace ws" and sg: "sg \<in> {[], [0x2D], [0x2B]}"
    and ds: "list_all isDigit ds"
  shows "parseInt (ws @ sg @ ds @ 0x2E # fs) =
     (if ds = [] then NaN
      else fl (if sg = [0x2D] then - of_nat (digitsValue ds) else of_nat (digitsValue ds)))"
proof -
  have hd: "\<not> isWhiteSpace c \<and> c \<noteq> 0x2D \<and> c \<noteq> 0x2B"
    if "ds @ 0x2E # fs = c # cs" for c cs
  proof (cases ds)
    case Nil
    then show ?thesis using that by (auto simp: isWhiteSpace_def isLineTerminator_def)
  next
    case (Cons e es)
    then have "isDigit c" using that ds by auto
    then show ?thesis by (auto simp: isDigit_not_space isDigit_def)
  qed
  obtain c cs where c: "ds @ 0x2E # fs = c # cs" by (cases "ds @ 0x2E # fs") auto
  have ns: "\<not> isWhiteSpace 0x2D" "\<not> isWhiteSpace 0x2B"
    by (simp_all add: isWhiteSpace_def isLineTerminator_def)
  have "trimStart (ws @ sg @ ds @ 0x2E # fs) = trimStart (sg @ ds @ 0x2E # fs)"
    unfolding trimStart_def using ws by (intro dropWhile_append2) (simp add: list_all_iff)
  moreover have "stripSign (trimStart (sg @ ds @ 0x2E # fs)) = (sg = [0x2D], ds @ 0x2E # fs)"
    using sg hd[OF c] ns by (auto simp: trimStart_def stripSign_def c)
  ultimately have "stripSign (trimStart (ws @ sg @ ds @ 0x2E # fs)) = (sg = [0x2D], ds @ 0x2E # fs)"
    by simp
  then show ?thesis
    by (simp add: parseInt_def takeWhile_digits_point[OF ds])
qed

lemma fl_of_nat:
  assumes "n < 2 ^ 53"
  shows "fl (of_nat n) = Fin (of_nat n)" "fl (- of_nat n) = Fin (- of_nat n)"
proof -
  have "int n < int (2 ^ 53)" using assms by (simp only: of_nat_less_iff)
  then have "\<bar>int n\<bar> < 2 ^ 53" "\<bar>- int n\<bar> < 2 ^ 53" by simp_all
  then show "fl (of_nat n) = Fin (of_nat n)" "fl (- of_nat n) = Fin (- of_nat n)"
    using fl_int[of "int n"] fl_int[of "- int n"] by simp_all
qed

text \<open>Above \<open>2^53\<close> an odd integer is not a double: this one is rounded up.\<close>

lemma fl_above_2_53: "fl 9007199254740995 = Fin 9007199254740996"
  by (subst fl_cases[where k = 53]) (simp_all add: round_half_even_def Let_def floor_rat_numeral_div)

text \<open>
  C8, as the code has it. The value of a row is parseInt of its second token with the
  quotes and commas removed. The quoted token "35,000,000" gives 35000000. A token that,
  once stripped, is white space (possibly none), an optional sign (plus or minus), at
  least one digit, a decimal point and anything more gives the integer of the digits
  before the point, with the sign, rounded to the nearest double: the fraction is cut
  off (truncation toward zero), and the value is that integer itself when it is below
  \<open>2^53\<close>; above, it may be rounded. With no digit before the point the value is
  NaN.
\<close>

theorem value_truncated:
  "(matchAll line = d # m1 # ms \<longrightarrow>
      (\<exists>p. parseLine line = Inr (Some p) \<and> val p = parseInt (stripNumber m1))) \<and>
   parseInt (stripNumber (js ''\"35,000,000\"'')) = Fin 35000000 \<and>
   (list_all isWhiteSpace ws \<and> sg \<in> {[], [0x2D], [0x2B]} \<and> ds \<noteq> [] \<and>
    list_all isDigit ds \<and> stripNumber tok = ws @ sg @ ds @ 0x2E # fs \<longrightarrow>
      parseInt (stripNumber tok) =
        fl (if sg = [0x2D] then - of_nat (digitsValue ds) else of_nat (digitsValue ds)) \<and>
      (digitsValue ds < 2 ^ 53 \<longrightarrow>
         parseInt (stripNumber tok) =
           Fin (if sg = [0x2D] then - of_nat (digitsValue ds) else of_nat (digitsValue ds)))) \<and>
   (list_all isWhiteSpace ws \<and> sg \<in> {[], [0x2D], [0x2B]} \<and>
    stripNumber tok = ws @ sg @ 0x2E # fs \<longrightarrow>
      parseInt (stripNumber tok) = NaN)"
proof (intro conjI impI)
  assume "matchAll line = d # m1 # ms"
  then show "\<exists>p. parseLine line = Inr (Some p) \<and> val p = parseInt (stripNumber m1)"
    by (simp add: parseLine_tokens)
next
  show "parseInt (stripNumber (js ''\"35,000,000\"'')) = Fin 35000000"
    by (simp add: js_defs)
next
  assume a: "list_all isWhiteSpace ws \<and> sg \<in> {[], [0x2D], [0x2B]} \<and> ds \<noteq> [] \<and>
    list_all isDigit ds \<and> stripNumber tok = ws @ sg @ ds @ 0x2E # fs"
  then have ws: "list_all isWhiteSpace ws" and sg: "sg \<in> {[], [0x2D], [0x2B]}"
    and ds: "list_all isDigit ds" by blast+
  show r: "parseInt (stripNumber tok) =
        fl (if sg = [0x2D] then - of_nat (digitsValue ds) else of_nat (digitsValue ds))"
    using a parseInt_fraction[OF ws sg ds, of fs] by simp
  assume "digitsValue ds < 2 ^ 53"
  then show "parseInt (stripNumber tok) =
           Fin (if sg = [0x2D] then - of_nat (digitsValue ds) else of_nat (digitsValue ds))"
    unfolding r by (simp add: fl_of_nat)
next
  assume a: "list_all isWhiteSpace ws \<and> sg \<in> {[], [0x2D], [0x2B]} \<and>
    stripNumber tok = ws @ sg @ 0x2E # fs"
  then have ws: "list_all isWhiteSpace ws" and sg: "sg \<in> {[], [0x2D], [0x2B]}" by blast+
  show "parseInt (stripNumber tok) = NaN"
    using a parseInt_fraction[OF ws sg, of "[]" fs] by simp
qed

text \<open>
  The tokens 1,234.99 (quoted), -7.5 and +3.9 give 1234, -7 and 3, and so does the quoted
  token 12.5 after a space give 12; the token 9007199254740995.5, whose integer is above
  \<open>2^53\<close>, gives the double 9007199254740996; the token .5 gives NaN.
\<close>

theorem value_truncated_witness:
  "matchAll (js ''2024/01/02,\"1,234.99\"'') = [js ''2024/01/02'', js ''\"1,234.99\"''] \<and>
   parseLine (js ''2024/01/02,\"1,234.99\"'') =
     Inr (Some \<lparr>date = js ''2024/01/02'', dateObj = Some 1704153600000, val = Fin 1234,
                index = None\<rparr>) \<and>
   list_all isWhiteSpace [] \<and> list_all isDigit (js ''1234'') \<and>
   stripNumber (js ''\"1,234.99\"'') = [] @ [] @ js ''1234'' @ 0x2E # js ''99'' \<and>
   digitsValue (js ''1234'') < 2 ^ 53 \<and>
   parseInt (stripNumber (js ''\"1,234.99\"'')) = Fin 1234 \<and>
   stripNumber (js ''-7.5'') = [] @ [0x2D] @ js ''7'' @ 0x2E # js ''5'' \<and>
   parseInt (stripNumber (js ''-7.5'')) = Fin (- 7) \<and>
   stripNumber (js ''+3.9'') = [] @ [0x2B] @ js ''3'' @ 0x2E # js ''9'' \<and>
   parseInt (stripNumber (js ''+3.9'')) = Fin 3 \<and>
   list_all isWhiteSpace [0x20] \<and>
   stripNumber (js ''\" 12.5\"'') = [0x20] @ [] @ js ''12'' @ 0x2E # js ''5'' \<and>
   parseInt (stripNumber (js ''\" 12.5\"'')) = Fin 12 \<and>
   stripNumber (js ''9007199254740995.5'') =
     [] @ [] @ js ''9007199254740995'' @ 0x2E # js ''5'' \<and>
   \<not> digitsValue (js ''9007199254740995'') < 2 ^ 53 \<and>
   parseInt (stripNumber (js ''9007199254740995.5'')) = Fin 9007199254740996 \<and>
   stripNumber (js ''.5'') = [] @ [] @ 0x2E # js ''5'' \<and>
   parseInt (stripNumber (js ''.5'')) = NaN"
proof -
  have m: "matchAll (js ''2024/01/02,\"1,234.99\"'') = [js ''2024/01/02'', js ''\"1,234.99\"'']"
    by (simp add: js_defs)
  have h1: "list_all isWhiteSpace [] \<and> ([]::jsstring) \<in> {[], [0x2D], [0x2B]} \<and>
      js ''1234'' \<noteq> [] \<and> list_all isDigit (js ''1234'') \<and>
      stripNumber (js ''\"1,234.99\"'') = [] @ [] @ js ''1234'' @ 0x2E # js ''99''"
    by (simp add: js_defs)
  have b1: "digitsValue (js ''1234'') < 2 ^ 53" by (simp add: js_defs)
  have h2: "list_all isWhiteSpace [] \<and> [0x2D] \<in> {[], [0x2D], [0x2B::nat]} \<and>
      js ''7'' \<noteq> [] \<and> list_all isDigit (js ''7'') \<and>
      stripNumber (js ''-7.5'') = [] @ [0x2D] @ js ''7'' @ 0x2E # js ''5''"
    by (simp add: js_defs)
  have b2: "digitsValue (js ''7'') < 2 ^ 53" by (simp add: js_defs)
  have h3: "list_all isWhiteSpace [] \<and> [0x2B] \<in> {[], [0x2D], [0x2B::nat]} \<and>
      js ''3'' \<noteq> [] \<and> list_all isDigit (js ''3'') \<and>
      stripNumber (js ''+3.9'') = [] @ [0x2B] @ js ''3'' @ 0x2E # js ''9''"
    by (simp add: js_defs)
  have b3: "digitsValue (js ''3'') < 2 ^ 53" by (simp add: js_defs)
  have h6: "list_all isWhiteSpace [0x20] \<and> ([]::jsstring) \<in> {[], [0x2D], [0x2B]} \<and>
      js ''12'' \<noteq> [] \<and> list_all isDigit (js ''12'') \<and>
      stripNumber (js ''\" 12.5\"'') = [0x20] @ [] @ js ''12'' @ 0x2E # js ''5''"
    by (simp add: js_defs)
  have b6: "digitsValue (js ''12'') < 2 ^ 53" by (simp add: js_defs)
  have h4: "list_all isWhiteSpace [] \<and> ([]::jsstring) \<in> {[], [0x2D], [0x2B]} \<and>
      js ''9007199254740995'' \<noteq> [] \<and> list_all isDigit (js ''9007199254740995'') \<and>
      stripNumber (js ''9007199254740995.5'') =
        [] @ [] @ js ''9007199254740995'' @ 0x2E # js ''5''"
    by (simp add: js_defs)
  have b4: "\<not> digitsValue (js ''9007199254740995'') < 2 ^ 53" by (simp add: js_defs)
  have h5: "list_all isWhiteSpace [] \<and> ([]::jsstring) \<in> {[], [0x2D], [0x2B]} \<and>
      stripNumber (js ''.5'') = [] @ [] @ 0x2E # js ''5''"
    by (simp add: js_defs)
  have v: "digitsValue (js ''1234'') = 1234" "digitsValue (js ''7'') = 7"
    "digitsValue (js ''3'') = 3" "digitsValue (js ''12'') = 12" "digitsValue (js ''9007199254740995'') = 9007199254740995"
    by (simp_all add: js_defs)
  note t1 = value_truncated[where line = "js ''2024/01/02,\"1,234.99\"''" and d = "js ''2024/01/02''"
      and ?m1.0 = "js ''\"1,234.99\"''" and ms = "[]" and ws = "[]" and sg = "[]" and ds = "js ''1234''"
      and tok = "js ''\"1,234.99\"''" and fs = "js ''99''"]
  note t2 = value_truncated[where ws = "[]" and sg = "[0x2D]" and ds = "js ''7''" and tok = "js ''-7.5''"
      and fs = "js ''5''"]
  note t3 = value_truncated[where ws = "[]" and sg = "[0x2B]" and ds = "js ''3''" and tok = "js ''+3.9''"
      and fs = "js ''9''"]
  note t6 = value_truncated[where ws = "[0x20]" and sg = "[]" and ds = "js ''12''"
      and tok = "js ''\" 12.5\"''" and fs = "js ''5''"]
  note t4 = value_truncated[where ws = "[]" and sg = "[]" and ds = "js ''9007199254740995''"
      and tok = "js ''9007199254740995.5''" and fs = "js ''5''"]
  note t5 = value_truncated[where ws = "[]" and sg = "[]" and tok = "js ''.5''" and fs = "js ''5''"]
  have pl: "parseLine (js ''2024/01/02,\"1,234.99\"'') =
     Inr (Some \<lparr>date = js ''2024/01/02'', dateObj = Some 1704153600000, val = Fin 1234,
                index = None\<rparr>)"
    using t1[THEN conjunct1, THEN mp, OF m] by (simp add: js_defs)
  have c1: "parseInt (stripNumber (js ''\"1,234.99\"'')) = Fin 1234"
    using t1[THEN conjunct2, THEN conjunct2, THEN conjunct1, THEN mp, OF h1, THEN conjunct2,
        THEN mp, OF b1]
    by (simp add: v)
  have c2: "parseInt (stripNumber (js ''-7.5'')) = Fin (- 7)"
    using t2[THEN conjunct2, THEN conjunct2, THEN conjunct1, THEN mp, OF h2, THEN conjunct2,
        THEN mp, OF b2]
    by (simp add: v)
  have c3: "parseInt (stripNumber (js ''+3.9'')) = Fin 3"
    using t3[THEN conjunct2, THEN conjunct2, THEN conjunct1, THEN mp, OF h3, THEN conjunct2,
        THEN mp, OF b3]
    by (simp add: v)
  have c6: "parseInt (stripNumber (js ''\" 12.5\"'')) = Fin 12"
    using t6[THEN conjunct2, THEN conjunct2, THEN conjunct1, THEN mp, OF h6, THEN conjunct2,
        THEN mp, OF b6]
    by (simp add: v)
  have c4: "parseInt (stripNumber (js ''9007199254740995.5'')) = Fin 9007199254740996"
    using t4[THEN conjunct2, THEN conjunct2, THEN conjunct1, THEN mp, OF h4, THEN conjunct1]
    by (simp add: v fl_above_2_53)
  have c5: "parseInt (stripNumber (js ''.5'')) = NaN"
    using t5[THEN conjunct2, THEN conjunct2, THEN conjunct2, THEN mp, OF h5] .
  show ?thesis
    using m pl h1 b1 c1 h2 c2 h3 c3 h6 c6 h4 b4 c4 h5 c5 by (simp only: simp_thms)
qed

text \<open>
  The claim as stated fails on a fraction with no digit before the point: parseInt finds
  no digit and the value is NaN, not the integer part 0.
\<close>

theorem value_truncated_counterexample:
  "parseCSV (js ''Date,Value\<newline>2024/01/02,.5\<newline>'') =
     Inr [\<lparr>date = js ''2024/01/02'', dateObj = Some 1704153600000, val = NaN, index = None\<rparr>]"
  by (simp add: js_defs)

section \<open>The index field\<close>

text \<open>The value 4500.25 is a double.\<close>

lemma fl_4500_25: "fl (18001 / 4) = Fin (18001 / 4)"
  by (rule fl_exact[where m = 18001 and e' = "- 2"]) simp_all

lemma parseFloat_4500_25: "parseFloat (stripNumber (js ''\"4,500.25\"'')) = Fin (18001 / 4)"
  by (simp add: js_defs fl_4500_25)

text \<open>
  C9. A line with at least two tokens gives a point whatever follows them: with no third
  token, or with a third token that parseFloat reads as NaN once its quotes and commas
  are removed, the index is unset; otherwise the index is what parseFloat reads. The
  quoted token "4,500.25" gives the index 4500.25.
\<close>

theorem index_optional:
  "(matchAll line = d # m1 # ms \<longrightarrow>
      (\<exists>p. parseLine line = Inr (Some p) \<and>
           index p = (case ms of
                        [] \<Rightarrow> None
                      | m2 # rest \<Rightarrow>
                          if isNaN (parseFloat (stripNumber m2)) then None
                          else Some (parseFloat (stripNumber m2))))) \<and>
   parseFloat (stripNumber (js ''\"4,500.25\"'')) = Fin (18001 / 4)"
proof (intro conjI impI)
  assume "matchAll line = d # m1 # ms"
  then show "\<exists>p. parseLine line = Inr (Some p) \<and>
           index p = (case ms of
                        [] \<Rightarrow> None
                      | m2 # rest \<Rightarrow>
                          if isNaN (parseFloat (stripNumber m2)) then None
                          else Some (parseFloat (stripNumber m2)))"
    by (simp add: parseLine_tokens)
next
  show "parseFloat (stripNumber (js ''\"4,500.25\"'')) = Fin (18001 / 4)"
    by (rule parseFloat_4500_25)
qed

text \<open>
  Three rows: an index of 4,500.25 in quotes, no third column, and a third column that is
  not a number. All three are kept; only the first has an index.
\<close>

theorem index_optional_witness:
  "matchAll (js ''2024/01/03,1020,n/a'') = [js ''2024/01/03'', js ''1020'', js ''n/a''] \<and>
   isNaN (parseFloat (stripNumber (js ''n/a''))) \<and>
   (\<exists>p. parseLine (js ''2024/01/03,1020,n/a'') = Inr (Some p) \<and> index p = None) \<and>
   parseCSV (js ''Date,Value,Index\<newline>2024/01/01,1000,\"4,500.25\"\<newline>2024/01/02,1010\<newline>2024/01/03,1020,n/a\<newline>'') =
     Inr [\<lparr>date = js ''2024/01/01'', dateObj = Some 1704067200000, val = Fin 1000,
           index = Some (Fin (18001 / 4))\<rparr>,
          \<lparr>date = js ''2024/01/02'', dateObj = Some 1704153600000, val = Fin 1010, index = None\<rparr>,
          \<lparr>date = js ''2024/01/03'', dateObj = Some 1704240000000, val = Fin 1020, index = None\<rparr>]"
proof -
  have m: "matchAll (js ''2024/01/03,1020,n/a'') = [js ''2024/01/03'', js ''1020'', js ''n/a'']"
    by (simp add: js_defs)
  have n: "isNaN (parseFloat (stripNumber (js ''n/a'')))"
    by (simp add: js_defs)
  from index_optional[of "js ''2024/01/03,1020,n/a''" "js ''2024/01/03''" "js ''1020''"
      "[js ''n/a'']"] m n
  have p: "\<exists>p. parseLine (js ''2024/01/03,1020,n/a'') = Inr (Some p) \<and> index p = None"
    by simp
  have "parseCSV (js ''Date,Value,Index\<newline>2024/01/01,1000,\"4,500.25\"\<newline>2024/01/02,1010\<newline>2024/01/03,1020,n/a\<newline>'') =
     Inr [\<lparr>date = js ''2024/01/01'', dateObj = Some 1704067200000, val = Fin 1000,
           index = Some (Fin (18001 / 4))\<rparr>,
          \<lparr>date = js ''2024/01/02'', dateObj = Some 1704153600000, val = Fin 1010, index = None\<rparr>,
          \<lparr>date = js ''2024/01/03'', dateObj = Some 1704240000000, val = Fin 1020, index = None\<rparr>]"
    by (simp add: js_defs fl_4500_25)
  then show ?thesis using m n p by (simp only: simp_thms)
qed

section \<open>The argument is left as it was\<close>

text \<open>
  C10. In a well-formed store, calculateMonthlyGrowth on the address of an array returns
  what it returns on the content of the array, and afterwards the array at that address,
  like every array the store had before the call, is what it was: the same points in the
  same order. The pushes and the sorts in place go to arrays made during the call.
\<close>

theorem calculateMonthlyGrowth_frame:
  assumes "store_ok s" and "arrays s data = Some xs"
  shows "\<exists>out s'. calculateMonthlyGrowth_st s data = Inr (out, s') \<and>
                  calculateMonthlyGrowth xs = Inr out \<and>
                  arrays s' data = Some xs \<and>
                  (\<forall>a. arrays s a \<noteq> None \<longrightarrow> arrays s' a = arrays s a)"
proof -
  have lt: "data < fresh s" using assms by (simp add: store_ok_def)
  have inv0: "store_inv s s []" by (simp add: store_inv_def)
  obtain g s1 where g: "forEach_st s data 0 (length xs) [] = Inr (g, s1)" "store_inv s s1 g"
    "forEach_group (absG s []) (take (length xs) (drop 0 xs)) = Inr (absG s1 g)"
    using forEach_sim[OF inv0 assms(2) lt, of 0 "length xs"] by blast
  have grp: "forEach_group [] xs = Inr (absG s1 g)" using g(3) by (simp add: absG_def)
  define ks where "ks = sort (Object_keys g)"
  obtain out where out: "calculateMonthlyGrowth xs = Inr out"
    using calculateMonthlyGrowth_Inr[of xs] by blast
  then have "mapRecords ks (absG s1 g) 0 ks = Inr out"
    by (simp add: calculateMonthlyGrowth_def grp Let_def ks_def)
  then obtain s' where s': "mapRecords_st ks s1 g 0 ks = Inr (out, s')" "store_inv s s' g"
    using mapRecords_sim[OF g(2), of ks 0 ks] by auto
  have res: "calculateMonthlyGrowth_st s data = Inr (out, s')"
    using assms(2) g(1) s'(1) by (simp add: calculateMonthlyGrowth_st_def Let_def ks_def)
  have frame: "arrays s' a = arrays s a" if "arrays s a \<noteq> None" for a
  proof -
    have "a < fresh s" using that assms(1) by (simp add: store_ok_def)
    then show ?thesis using s'(2) by (simp add: store_inv_def)
  qed
  then have "arrays s' data = Some xs" using assms(2) by simp
  then show ?thesis using res out frame by blast
qed

text \<open>The points of scenario A in an array at address 0.\<close>

theorem calculateMonthlyGrowth_frame_witness:
  "store_ok \<lparr>arrays = [0 \<mapsto>
       [\<lparr>date = js ''2024/01/01'', dateObj = Some 1704067200000, val = Fin 1000, index = None\<rparr>,
        \<lparr>date = js ''2024/01/31'', dateObj = Some 1706659200000, val = Fin 1100, index = None\<rparr>,
        \<lparr>date = js ''2024/02/29'', dateObj = Some 1709164800000, val = Fin 1210, index = None\<rparr>]],
      fresh = 1\<rparr> \<and>
   (\<exists>s'. calculateMonthlyGrowth_st \<lparr>arrays = [0 \<mapsto>
       [\<lparr>date = js ''2024/01/01'', dateObj = Some 1704067200000, val = Fin 1000, index = None\<rparr>,
        \<lparr>date = js ''2024/01/31'', dateObj = Some 1706659200000, val = Fin 1100, index = None\<rparr>,
        \<lparr>date = js ''2024/02/29'', dateObj = Some 1709164800000, val = Fin 1210, index = None\<rparr>]],
      fresh = 1\<rparr> 0 =
      Inr ([\<lparr>month = js ''2024-01'', startValue = Fin 1000, endValue = Fin 1100,
             growth = Fin 100, growthPercent = Fin 10\<rparr>,
            \<lparr>month = js ''2024-02'', startValue = Fin 1100, endValue = Fin 1210,
             growth = Fin 110, growthPercent = Fin 10\<rparr>], s') \<and>
      arrays s' 0 = Some
       [\<lparr>date = js ''2024/01/01'', dateObj = Some 1704067200000, val = Fin 1000, index = None\<rparr>,
        \<lparr>date = js ''2024/01/31'', dateObj = Some 1706659200000, val = Fin 1100, index = None\<rparr>,
        \<lparr>date = js ''2024/02/29'', dateObj = Some 1709164800000, val = Fin 1210, index = None\<rparr>])"
proof -
  let ?xs =
    "[\<lparr>date = js ''2024/01/01'', dateObj = Some 1704067200000, val = Fin 1000, index = None\<rparr>,
      \<lparr>date = js ''2024/01/31'', dateObj = Some 1706659200000, val = Fin 1100, index = None\<rparr>,
      \<lparr>date = js ''2024/02/29'', dateObj = Some 1709164800000, val = Fin 1210, index = None\<rparr>]"
  let ?s = "\<lparr>arrays = [0 \<mapsto> ?xs], fresh = 1\<rparr>"
  have ok: "store_ok ?s" by (simp add: store_ok_def)
  have rd: "arrays ?s 0 = Some ?xs" by simp
  from calculateMonthlyGrowth_frame[OF ok rd] obtain out s' where r:
    "calculateMonthlyGrowth_st ?s 0 = Inr (out, s')" "calculateMonthlyGrowth ?xs = Inr out"
    "arrays s' 0 = Some ?xs"
    by blast
  from r(2) have "out = [\<lparr>month = js ''2024-01'', startValue = Fin 1000, endValue = Fin 1100,
             growth = Fin 100, growthPercent = Fin 10\<rparr>,
            \<lparr>month = js ''2024-02'', startValue = Fin 1100, endValue = Fin 1210,
             growth = Fin 110, growthPercent = Fin 10\<rparr>]"
    by (simp add: scenario_A_records)
  with r(1,3) ok show ?thesis by blast
qed

end
